theory Spec2Isabelle
  imports Main "HOL-Library.Word" "HOL-Library.Multiset"
begin

unbundle bit_operations_syntax

section \<open>chwspi.c: configuration, environment and program state\<close>

text \<open>
  The source fixes its configuration in globals: \<open>CHN_AMOUNT = 4\<close>, \<open>samples = 20000\<close>,
  \<open>threshold = 450\<close>, \<open>blocks = 1\<close>.  The functions below take the first three as a
  record, so that every theorem holds for the values of the source and for any other
  window size, channel count and threshold; \<open>source_config\<close> is the configuration the
  source is compiled with.  Counts and indices of the source are non-negative \<open>int\<close>s that
  stay far below \<open>2^31\<close> (at most \<open>samples * CHN_AMOUNT\<close>), so they are naturals here;
  readings and the threshold are integers.  A configuration is meaningful for
  \<open>0 < samples\<close> and \<open>0 < CHN_AMOUNT\<close> only (the source declares
  \<open>channels[CHN_AMOUNT]\<close>).
\<close>

record config =
  samples :: nat
  CHN_AMOUNT :: nat
  threshold :: int

definition blocks :: nat where
  "blocks = 1"

definition source_config :: config where
  "source_config = \<lparr>samples = 20000, CHN_AMOUNT = 4, threshold = 450\<rparr>"

type_synonym byte = "8 word"

text \<open>
  What the operating system answers: the return value of the \<open>n\<close>-th \<open>ioctl\<close> call
  (one call per tick, counted from 0), the \<open>4 * CHN_AMOUNT * blocks\<close> bytes it left in
  \<open>rx\<close>, and whether the \<open>n\<close>-th \<open>fopen\<close> call returns a stream (\<open>False\<close>: it
  returns \<open>NULL\<close>).  The return values of \<open>fprintf\<close> and \<open>fclose\<close> are discarded by
  the source and have no influence on it.  The calls of \<open>malloc\<close> are taken to succeed.
\<close>

record env =
  ioctl_ret :: "nat \<Rightarrow> int"
  rx :: "nat \<Rightarrow> byte list"
  fopen_ok :: "nat \<Rightarrow> bool"

text \<open>
  The two ways a run ends abnormally: \<open>main\<close> reads \<open>data_buf[j]\<close> after \<open>spi_transfer\<close>
  returned \<open>NULL\<close>, and \<open>write_file\<close> hands the \<open>NULL\<close> of a failed \<open>fopen\<close> to
  \<open>fprintf\<close>/\<open>fclose\<close>.  Both are accesses through a null pointer; the process is
  killed there (SIGSEGV), which the model records as a fault that ends the run.
\<close>

datatype fault = NullBuf | NullFile

text \<open>
  A cell of \<open>data\<close> or \<open>data_fixed\<close>: \<open>None\<close> is memory as \<open>malloc\<close> returned it, never
  written by the program; \<open>Some v\<close> holds the reading \<open>v\<close>.
\<close>

type_synonym cell = "int option"

text \<open>
  The variables of \<open>main\<close>.  \<open>loop_i\<close> is the loop variable \<open>i\<close> as it stands when the
  loop body is entered; \<open>files\<close> lists the files written so far, each as its rows (a
  call of \<open>fopen\<close> that succeeds adds one, so its length is also the number of calls made).
  \<open>data_buf\<close> is assigned by every \<open>spi_transfer\<close> before it is read and needs no field.
\<close>

record state =
  loop_i :: nat
  s_counter :: nat
  data :: "cell list"
  data_fixed :: "cell list"
  files :: "cell list list list"

definition init :: "config \<Rightarrow> state" where
  "init cfg = \<lparr>loop_i = 0, s_counter = 0,
     data = replicate (CHN_AMOUNT cfg * samples cfg) None,
     data_fixed = replicate (CHN_AMOUNT cfg * samples cfg) None,
     files = []\<rparr>"

section \<open>The functions of chwspi.c\<close>

text \<open>
  \<open>spi_transfer\<close>: \<open>NULL\<close> when \<open>ioctl\<close> returns a negative value; otherwise one
  reading per channel, \<open>buf[i] = ((int) (rx[j + 1] & 3) << 8) + rx[j + 2]\<close> with
  \<open>j = 4 * i\<close>.
\<close>

definition spi_transfer :: "config \<Rightarrow> int \<Rightarrow> byte list \<Rightarrow> int list option" where
  "spi_transfer cfg ret rxb =
     (if ret < 0 then None
      else Some (map (\<lambda>k. push_bit 8 (uint (rxb ! (4 * k + 1) AND 3)) + uint (rxb ! (4 * k + 2)))
                   [0..<CHN_AMOUNT cfg * blocks]))"

text \<open>
  \<open>fix_buffer\<close>: the loop \<open>for (c = 0, i = offset * CHN_AMOUNT; c < samples * CHN_AMOUNT; c++, i++)\<close>
  with body \<open>if (i >= samples * CHN_AMOUNT) { i = 0; } buf_r[c] = buf[i];\<close>.
  It only reads \<open>buf\<close> and returns \<open>buf_r\<close>.
\<close>

function fix_loop :: "config \<Rightarrow> 'a list \<Rightarrow> nat \<Rightarrow> nat \<Rightarrow> 'a list \<Rightarrow> 'a list" where
  "fix_loop cfg buf c i buf_r =
     (if c < samples cfg * CHN_AMOUNT cfg then
        (let i' = (if i \<ge> samples cfg * CHN_AMOUNT cfg then 0 else i)
         in fix_loop cfg buf (c + 1) (i' + 1) (buf_r[c := buf ! i']))
      else buf_r)"
  by pat_completeness auto
termination
  by (relation "measure (\<lambda>(cfg, buf, c, i, buf_r). samples cfg * CHN_AMOUNT cfg - c)") auto

declare fix_loop.simps [simp del]

definition fix_buffer :: "config \<Rightarrow> 'a list \<Rightarrow> 'a list \<Rightarrow> nat \<Rightarrow> 'a list" where
  "fix_buffer cfg buf buf_r offset = fix_loop cfg buf 0 (offset * CHN_AMOUNT cfg) buf_r"

text \<open>
  \<open>write_file\<close>: \<open>fopen\<close>, then one row per tick: \<open>CHN_AMOUNT - 1\<close> values each
  followed by a comma and the last value followed by a newline (\<open>rows\<close>, the two
  nested \<open>for\<close> statements).  The file is modelled by its rows of values.  With \<open>fp = NULL\<close> the
  first \<open>fprintf\<close> (or, with no row to write, \<open>fclose\<close>) faults.
\<close>

definition rows :: "config \<Rightarrow> 'a list \<Rightarrow> 'a list list" where
  "rows cfg dat =
     map (\<lambda>r. map (\<lambda>j. dat ! (r * CHN_AMOUNT cfg + j)) [0..<CHN_AMOUNT cfg - 1]
               @ [dat ! (r * CHN_AMOUNT cfg + (CHN_AMOUNT cfg - 1))])
       [0..<samples cfg]"

definition write_file :: "config \<Rightarrow> 'a list \<Rightarrow> bool \<Rightarrow> fault + 'a list list" where
  "write_file cfg dat fp_ok = (if \<not> fp_ok then Inl NullFile else Inr (rows cfg dat))"

text \<open>
  The channel loop of continuous mode (lines 198 to 205):
  \<open>data[i * CHN_AMOUNT * blocks + j] = data_buf[j]\<close>, then
  \<open>if (!s_counter && (data_buf[j] >= threshold)) s_counter = 1\<close>.
  Reading \<open>data_buf[j]\<close> with \<open>data_buf = NULL\<close> is the fault \<open>NullBuf\<close>.
\<close>

fun chan_loop :: "config \<Rightarrow> nat \<Rightarrow> int list option \<Rightarrow> nat list \<Rightarrow> cell list \<times> nat
    \<Rightarrow> fault + (cell list \<times> nat)" where
  "chan_loop cfg i data_buf [] ds = Inr ds"
| "chan_loop cfg i data_buf (j # js) (d, s) =
     (case data_buf of
        None \<Rightarrow> Inl NullBuf
      | Some b \<Rightarrow>
          chan_loop cfg i data_buf js
            (d[i * CHN_AMOUNT cfg * blocks + j := Some (b ! j)],
             if s = 0 \<and> b ! j \<ge> threshold cfg then 1 else s))"

text \<open>
  One iteration of the continuous loop (lines 193 to 216), the \<open>n\<close>-th since the start:
  wrap \<open>i\<close>, transfer, channel loop, \<open>if (s_counter) s_counter++\<close>, and when
  \<open>s_counter >= (samples * 2) / 3\<close> extract with \<open>fix_buffer(data, data_fixed, i)\<close>,
  write the file and reset \<open>s_counter\<close>; then \<open>i++\<close>.
\<close>

definition tick :: "config \<Rightarrow> env \<Rightarrow> nat \<Rightarrow> state \<Rightarrow> fault + state" where
  "tick cfg e n st =
     (let i = (if loop_i st \<ge> samples cfg then 0 else loop_i st);
          data_buf = spi_transfer cfg (ioctl_ret e n) (rx e n)
      in case chan_loop cfg i data_buf [0..<CHN_AMOUNT cfg * blocks] (data st, s_counter st) of
           Inl f \<Rightarrow> Inl f
         | Inr (d, s) \<Rightarrow>
             (let s' = (if s \<noteq> 0 then s + 1 else s)
              in if s' \<ge> (samples cfg * 2) div 3 then
                   (let df = fix_buffer cfg d (data_fixed st) i
                    in case write_file cfg df (fopen_ok e (length (files st))) of
                         Inl f \<Rightarrow> Inl f
                       | Inr file \<Rightarrow>
                           Inr (st\<lparr>loop_i := i + 1, s_counter := 0, data := d,
                                   data_fixed := df, files := files st @ [file]\<rparr>))
                 else Inr (st\<lparr>loop_i := i + 1, s_counter := s', data := d\<rparr>)))"

text \<open>
  Continuous mode never returns; \<open>continuous cfg e n\<close> is the state of \<open>main\<close> after
  \<open>n\<close> iterations of its loop (ticks \<open>0\<close> to \<open>n - 1\<close>), or the fault that ended the run.
\<close>

fun continuous :: "config \<Rightarrow> env \<Rightarrow> nat \<Rightarrow> fault + state" where
  "continuous cfg e 0 = Inr (init cfg)"
| "continuous cfg e (Suc n) =
     (case continuous cfg e n of Inl f \<Rightarrow> Inl f | Inr st \<Rightarrow> tick cfg e n st)"

text \<open>
  The capture is declared complete during tick \<open>n\<close>: that iteration ran and wrote a file.
\<close>

definition completes_at :: "config \<Rightarrow> env \<Rightarrow> nat \<Rightarrow> bool" where
  "completes_at cfg e n =
     (case continuous cfg e n of
        Inl f \<Rightarrow> False
      | Inr st \<Rightarrow>
          (case tick cfg e n st of
             Inl f \<Rightarrow> False
           | Inr st' \<Rightarrow> length (files st') = Suc (length (files st))))"

text \<open>
  Single measurement (lines 219 to 225): \<open>for (i = 0; i < samples; i += blocks)\<close>, a
  transfer and the copy loop \<open>data[i * CHN_AMOUNT * blocks + j] = data_buf[j]\<close>.  With
  \<open>blocks = 1\<close> the iteration with \<open>i = k\<close> makes the \<open>k\<close>-th call of \<open>ioctl\<close>.
\<close>

fun copy_loop :: "config \<Rightarrow> nat \<Rightarrow> int list option \<Rightarrow> nat list \<Rightarrow> cell list
    \<Rightarrow> fault + cell list" where
  "copy_loop cfg i data_buf [] d = Inr d"
| "copy_loop cfg i data_buf (j # js) d =
     (case data_buf of
        None \<Rightarrow> Inl NullBuf
      | Some b \<Rightarrow>
          copy_loop cfg i data_buf js (d[i * CHN_AMOUNT cfg * blocks + j := Some (b ! j)]))"

function single_loop :: "config \<Rightarrow> env \<Rightarrow> state \<Rightarrow> fault + state" where
  "single_loop cfg e st =
     (if loop_i st < samples cfg then
        (case copy_loop cfg (loop_i st)
                (spi_transfer cfg (ioctl_ret e (loop_i st)) (rx e (loop_i st)))
                [0..<CHN_AMOUNT cfg * blocks] (data st) of
           Inl f \<Rightarrow> Inl f
         | Inr d \<Rightarrow> single_loop cfg e (st\<lparr>loop_i := loop_i st + blocks, data := d\<rparr>))
      else Inr st)"
  by pat_completeness auto
termination
  by (relation "measure (\<lambda>(cfg, e, st). samples cfg - loop_i st)") (auto simp: blocks_def)

declare single_loop.simps [simp del]

text \<open>
  \<open>main\<close>: with \<open>MODE = 0\<close> the single measurement followed by the one \<open>write_file(data, filename)\<close>
  at the end of \<open>main\<close>; with \<open>MODE\<close> non-zero the continuous loop, observed after \<open>n\<close>
  iterations (it has no exit, so the code after it is never reached).
\<close>

definition main_single :: "config \<Rightarrow> env \<Rightarrow> fault + state" where
  "main_single cfg e =
     (case single_loop cfg e (init cfg) of
        Inl f \<Rightarrow> Inl f
      | Inr st \<Rightarrow>
          (case write_file cfg (data st) (fopen_ok e 0) of
             Inl f \<Rightarrow> Inl f
           | Inr file \<Rightarrow> Inr (st\<lparr>files := files st @ [file]\<rparr>)))"

definition main :: "config \<Rightarrow> nat \<Rightarrow> env \<Rightarrow> nat \<Rightarrow> fault + state" where
  "main cfg MODE e n = (if MODE \<noteq> 0 then continuous cfg e n else main_single cfg e)"

text \<open>The readings of tick \<open>n\<close>, when its transfer succeeds.\<close>

definition readings :: "config \<Rightarrow> env \<Rightarrow> nat \<Rightarrow> int list" where
  "readings cfg e n =
     (case spi_transfer cfg (ioctl_ret e n) (rx e n) of None \<Rightarrow> [] | Some b \<Rightarrow> b)"

section \<open>Auxiliary definitions for the proofs\<close>

text \<open>
  What the channel loop leaves behind when the transfer succeeded: the ring with the tick's
  readings stored at slot \<open>i\<close>, and the counter after the scan of the channels.
\<close>

definition write_tick :: "config \<Rightarrow> nat \<Rightarrow> int list \<Rightarrow> cell list \<Rightarrow> cell list" where
  "write_tick cfg i b d =
     fold (\<lambda>j d. d[i * CHN_AMOUNT cfg * blocks + j := Some (b ! j)]) [0..<CHN_AMOUNT cfg * blocks] d"

definition scan :: "config \<Rightarrow> int list \<Rightarrow> nat \<Rightarrow> nat" where
  "scan cfg b s = (if s \<noteq> 0 then s else if \<exists>x\<in>set b. threshold cfg \<le> x then 1 else 0)"

text \<open>The counter after the channel loop and \<open>if (s_counter) s_counter++\<close>.\<close>

definition next_counter :: "config \<Rightarrow> int list \<Rightarrow> nat \<Rightarrow> nat" where
  "next_counter cfg b s = (let s1 = scan cfg b s in if s1 \<noteq> 0 then s1 + 1 else s1)"

text \<open>The slot a loop iteration writes: \<open>i\<close> after \<open>if (i >= samples) { i = 0; }\<close>.\<close>

definition slot :: "config \<Rightarrow> state \<Rightarrow> nat" where
  "slot cfg st = (if loop_i st \<ge> samples cfg then 0 else loop_i st)"

text \<open>
  The ring after \<open>n\<close> ticks: tick \<open>n\<close> goes to slot \<open>n mod samples\<close>, and each of the last
  \<open>samples\<close> ticks is still in its slot.
\<close>

definition ring_inv :: "config \<Rightarrow> env \<Rightarrow> nat \<Rightarrow> state \<Rightarrow> bool" where
  "ring_inv cfg e n st \<longleftrightarrow>
     slot cfg st = n mod samples cfg \<and>
     length (data st) = samples cfg * CHN_AMOUNT cfg \<and>
     length (data_fixed st) = samples cfg * CHN_AMOUNT cfg \<and>
     (\<forall>k<n. n \<le> k + samples cfg \<longrightarrow>
        (\<forall>c<CHN_AMOUNT cfg.
           data st ! ((k mod samples cfg) * CHN_AMOUNT cfg + c) = Some (readings cfg e k ! c)))"

text \<open>
  The tick whose readings stand at position \<open>q\<close> of the window extracted at tick \<open>t\<close>.
\<close>

definition window_tick :: "config \<Rightarrow> nat \<Rightarrow> nat \<Rightarrow> nat" where
  "window_tick cfg t q = (if q = 0 then t else t + q - samples cfg)"

text \<open>The linear buffer of the single measurement after \<open>loop_i\<close> ticks.\<close>

definition single_inv :: "config \<Rightarrow> env \<Rightarrow> state \<Rightarrow> bool" where
  "single_inv cfg e st \<longleftrightarrow>
     loop_i st \<le> samples cfg \<and>
     length (data st) = samples cfg * CHN_AMOUNT cfg \<and>
     (\<forall>k < loop_i st. \<forall>c < CHN_AMOUNT cfg.
        data st ! (k * CHN_AMOUNT cfg + c) = Some (readings cfg e k ! c))"

section \<open>Concrete configurations and environments\<close>

text \<open>
  A small configuration (window of 6 ticks, 2 channels, threshold 450, so
  \<open>(samples * 2) / 3 = 4\<close>) and environments for it.  In \<open>demo_env t0 fo\<close> every transfer
  succeeds, tick \<open>n\<close> reads \<open>n\<close> on the first channel and \<open>n + 100\<close> on the second, except
  that the second channel reads 500 at tick \<open>t0\<close>; \<open>fopen\<close> succeeds iff \<open>fo\<close>.
  In \<open>boundary_env v\<close> the first channel always reads \<open>256 + v\<close> and the second 0.
  In \<open>failing_env k\<close> the transfer of tick \<open>k\<close> fails.
\<close>

definition demo_config :: config where
  "demo_config = \<lparr>samples = 6, CHN_AMOUNT = 2, threshold = 450\<rparr>"

definition demo_env :: "nat \<Rightarrow> bool \<Rightarrow> env" where
  "demo_env t0 fo =
     \<lparr>ioctl_ret = (\<lambda>n. 0),
      rx = (\<lambda>n. [0, 0, of_nat n, 0, 0, if n = t0 then 1 else 0, if n = t0 then 244 else of_nat (n + 100), 0]),
      fopen_ok = (\<lambda>n. fo)\<rparr>"

definition boundary_env :: "byte \<Rightarrow> env" where
  "boundary_env v =
     \<lparr>ioctl_ret = (\<lambda>n. 0), rx = (\<lambda>n. [0, 1, v, 0, 0, 0, 0, 0]), fopen_ok = (\<lambda>n. True)\<rparr>"

definition failing_env :: "nat \<Rightarrow> env" where
  "failing_env k = (demo_env 4 True)\<lparr>ioctl_ret := (\<lambda>n. if n = k then - 1 else 0)\<rparr>"

text \<open>
  The scenario of the specification: \<open>W = 9000\<close>, four channels, \<open>T = 450\<close>, and channel 0
  reads 500 at tick 1000 and 0 at every other tick.
\<close>

definition spec_config :: config where
  "spec_config = \<lparr>samples = 9000, CHN_AMOUNT = 4, threshold = 450\<rparr>"

definition spec_env :: env where
  "spec_env =
     \<lparr>ioctl_ret = (\<lambda>n. 0),
      rx = (\<lambda>n. [0, if n = 1000 then 1 else 0, if n = 1000 then 244 else 0, 0,
                 0, 0, 0, 0, 0, 0, 0, 0, 0, 0, 0, 0]),
      fopen_ok = (\<lambda>n. True)\<rparr>"

section \<open>The extraction \<open>fix_buffer\<close>\<close>

lemma fix_loop_length: "length (fix_loop cfg buf c i buf_r) = length buf_r"
proof (induction cfg buf c i buf_r rule: fix_loop.induct)
  case (1 cfg buf c i buf_r)
  show ?case
  proof (cases "c < samples cfg * CHN_AMOUNT cfg")
    case True
    then show ?thesis using "1.IH" [OF True refl] by (subst fix_loop.simps) (simp add: Let_def)
  next
    case False
    then show ?thesis by (subst fix_loop.simps) simp
  qed
qed

lemma fix_loop_nth:
  "i \<le> samples cfg * CHN_AMOUNT cfg \<Longrightarrow> k < length buf_r \<Longrightarrow>
   fix_loop cfg buf c i buf_r ! k =
     (if c \<le> k \<and> k < samples cfg * CHN_AMOUNT cfg
      then buf ! ((i + (k - c)) mod (samples cfg * CHN_AMOUNT cfg)) else buf_r ! k)"
proof (induction cfg buf c i buf_r rule: fix_loop.induct)
  case (1 cfg buf c i buf_r)
  let ?N = "samples cfg * CHN_AMOUNT cfg"
  show ?case
  proof (cases "c < ?N")
    case False
    then show ?thesis by (subst fix_loop.simps) auto
  next
    case cN: True
    define i' where "i' = (if i \<ge> ?N then 0 else i)"
    have i'_lt: "i' < ?N" using cN "1.prems" by (simp add: i'_def)
    have i'_mod: "i' = i mod ?N" using "1.prems" by (auto simp: i'_def)
    have unfold: "fix_loop cfg buf c i buf_r = fix_loop cfg buf (c + 1) (i' + 1) (buf_r[c := buf ! i'])"
      using cN by (subst fix_loop.simps) (simp add: i'_def Let_def)
    have IH: "fix_loop cfg buf (c + 1) (i' + 1) (buf_r[c := buf ! i']) ! k =
        (if c + 1 \<le> k \<and> k < ?N then buf ! ((i' + 1 + (k - (c + 1))) mod ?N)
         else buf_r[c := buf ! i'] ! k)"
      using "1.IH" [OF cN i'_def] i'_lt "1.prems" by simp
    show ?thesis
    proof (cases "c < k \<and> k < ?N")
      case True
      then have "(i' + 1 + (k - (c + 1))) mod ?N = (i + (k - c)) mod ?N"
        unfolding i'_mod by (metis Suc_diff_Suc Suc_eq_plus1 add.assoc add.commute mod_add_left_eq plus_1_eq_Suc)
      with True show ?thesis unfolding unfold IH by simp
    next
      case False
      then show ?thesis unfolding unfold IH using "1.prems" cN i'_mod i'_lt by (auto simp: nth_list_update)
    qed
  qed
qed

lemma fix_buffer_rotate:
  assumes "length buf = samples cfg * CHN_AMOUNT cfg" "length buf_r = samples cfg * CHN_AMOUNT cfg"
    "offset < samples cfg"
  shows "fix_buffer cfg buf buf_r offset = rotate (offset * CHN_AMOUNT cfg) buf"
proof (rule nth_equalityI)
  show "length (fix_buffer cfg buf buf_r offset) = length (rotate (offset * CHN_AMOUNT cfg) buf)"
    using assms by (simp add: fix_buffer_def fix_loop_length)
next
  fix k assume "k < length (fix_buffer cfg buf buf_r offset)"
  then have k: "k < samples cfg * CHN_AMOUNT cfg" using assms by (simp add: fix_buffer_def fix_loop_length)
  have "offset * CHN_AMOUNT cfg \<le> samples cfg * CHN_AMOUNT cfg" using assms(3) by simp
  then show "fix_buffer cfg buf buf_r offset ! k = rotate (offset * CHN_AMOUNT cfg) buf ! k"
    using k assms by (simp add: fix_buffer_def fix_loop_nth nth_rotate)
qed

lemma mset_rotate_eq: "mset (rotate n xs) = mset xs"
proof -
  have "mset (drop k xs @ take k xs) = mset (take k xs @ drop k xs)" for k
    by (simp only: mset_append add.commute)
  then show ?thesis by (simp only: rotate_drop_take append_take_drop_id)
qed

text \<open>
  Claim C7.  For a ring \<open>buf\<close> and a destination \<open>buf_r\<close> of \<open>samples * CHN_AMOUNT\<close> cells
  each (as \<open>main\<close> allocates \<open>data\<close> and \<open>data_fixed\<close>) and every offset below
  \<open>samples\<close>, \<open>fix_buffer\<close> returns exactly \<open>samples * CHN_AMOUNT\<close> values, and each of
  them is a cell of the ring: nothing of the old content of \<open>buf_r\<close> remains.
\<close>

theorem fix_buffer_length:
  assumes "length buf = samples cfg * CHN_AMOUNT cfg"
    and "length buf_r = samples cfg * CHN_AMOUNT cfg"
    and "offset < samples cfg"
  shows "length (fix_buffer cfg buf buf_r offset) = samples cfg * CHN_AMOUNT cfg \<and>
         set (fix_buffer cfg buf buf_r offset) \<subseteq> set buf"
  using assms by (simp add: fix_buffer_rotate)

theorem fix_buffer_length_witness:
  "length [1, 2, 3, 4, 5, 6, 7, 8, 9, 10, 11, 12 :: int] = samples demo_config * CHN_AMOUNT demo_config \<and>
   length (replicate 12 (0::int)) = samples demo_config * CHN_AMOUNT demo_config \<and>
   5 < samples demo_config \<and>
   length (fix_buffer demo_config [1, 2, 3, 4, 5, 6, 7, 8, 9, 10, 11, 12 :: int] (replicate 12 0) 5) = 12"
proof -
  have h: "length [1, 2, 3, 4, 5, 6, 7, 8, 9, 10, 11, 12 :: int] = samples demo_config * CHN_AMOUNT demo_config"
    "length (replicate 12 (0::int)) = samples demo_config * CHN_AMOUNT demo_config"
    "5 < samples demo_config"
    by (simp_all add: demo_config_def)
  show ?thesis using fix_buffer_length [OF h] h by (simp add: demo_config_def)
qed

text \<open>
  Claim C10.  Under the same conditions the output at index \<open>c\<close> is
  \<open>buf[(offset * CHN_AMOUNT + c) mod (samples * CHN_AMOUNT)]\<close>: the output is \<open>buf\<close> rotated
  left by \<open>offset * CHN_AMOUNT\<close> positions, hence a permutation of it.  The loop has no
  assignment to \<open>buf\<close>; the function reads it and returns \<open>buf_r\<close>.
\<close>

theorem fix_buffer_rotation:
  assumes "length buf = samples cfg * CHN_AMOUNT cfg"
    and "length buf_r = samples cfg * CHN_AMOUNT cfg"
    and "offset < samples cfg"
  shows "(\<forall>c < samples cfg * CHN_AMOUNT cfg.
            fix_buffer cfg buf buf_r offset ! c
              = buf ! ((offset * CHN_AMOUNT cfg + c) mod (samples cfg * CHN_AMOUNT cfg))) \<and>
         fix_buffer cfg buf buf_r offset = rotate (offset * CHN_AMOUNT cfg) buf \<and>
         mset (fix_buffer cfg buf buf_r offset) = mset buf"
  using assms by (simp add: fix_buffer_rotate nth_rotate mset_rotate_eq)

theorem fix_buffer_rotation_witness:
  "fix_buffer demo_config [1, 2, 3, 4, 5, 6, 7, 8, 9, 10, 11, 12 :: int] (replicate 12 0) 5
     = [11, 12, 1, 2, 3, 4, 5, 6, 7, 8, 9, 10] \<and>
   mset (fix_buffer demo_config [1, 2, 3, 4, 5, 6, 7, 8, 9, 10, 11, 12 :: int] (replicate 12 0) 5)
     = mset [1, 2, 3, 4, 5, 6, 7, 8, 9, 10, 11, 12]"
proof -
  have h: "length [1, 2, 3, 4, 5, 6, 7, 8, 9, 10, 11, 12 :: int] = samples demo_config * CHN_AMOUNT demo_config"
    "length (replicate 12 (0::int)) = samples demo_config * CHN_AMOUNT demo_config"
    "5 < samples demo_config"
    by (simp_all add: demo_config_def)
  have r: "rotate (5 * CHN_AMOUNT demo_config) [1, 2, 3, 4, 5, 6, 7, 8, 9, 10, 11, 12 :: int]
      = [11, 12, 1, 2, 3, 4, 5, 6, 7, 8, 9, 10]" by code_simp
  show ?thesis using fix_buffer_rotation [OF h] r by simp
qed

section \<open>The channel loop and one tick\<close>

lemma spi_transfer_ok:
  "0 \<le> ioctl_ret e n \<Longrightarrow> spi_transfer cfg (ioctl_ret e n) (rx e n) = Some (readings cfg e n)"
  by (simp add: readings_def spi_transfer_def)

lemma spi_transfer_fail:
  "ioctl_ret e n < 0 \<Longrightarrow> spi_transfer cfg (ioctl_ret e n) (rx e n) = None"
  by (simp add: spi_transfer_def)

lemma length_readings:
  "0 \<le> ioctl_ret e n \<Longrightarrow> length (readings cfg e n) = CHN_AMOUNT cfg"
  by (simp add: readings_def spi_transfer_def blocks_def)

lemma chan_loop_None: "js \<noteq> [] \<Longrightarrow> chan_loop cfg i None js ds = Inl NullBuf"
  by (cases js; cases ds) simp_all

lemma chan_loop_Some:
  "chan_loop cfg i (Some b) js (d, s) =
     Inr (fold (\<lambda>j d. d[i * CHN_AMOUNT cfg * blocks + j := Some (b ! j)]) js d,
          if s \<noteq> 0 then s else if \<exists>j\<in>set js. threshold cfg \<le> b ! j then 1 else 0)"
  by (induction js arbitrary: d s) auto

lemma chan_loop_eq:
  assumes "length b = CHN_AMOUNT cfg"
  shows "chan_loop cfg i (Some b) [0..<CHN_AMOUNT cfg * blocks] (d, s) =
           Inr (write_tick cfg i b d, scan cfg b s)"
proof -
  have "(\<exists>j\<in>set [0..<CHN_AMOUNT cfg * blocks]. threshold cfg \<le> b ! j) = (\<exists>x\<in>set b. threshold cfg \<le> x)"
    using assms by (fastforce simp: blocks_def in_set_conv_nth)
  then show ?thesis by (simp add: chan_loop_Some write_tick_def scan_def)
qed

lemma fold_update_length:
  "length (fold (\<lambda>j d. d[base + j := f j]) js d) = length d"
  by (induction js arbitrary: d) simp_all

lemma fold_update_nth:
  "k < length d \<Longrightarrow>
   fold (\<lambda>j d. d[base + j := f j]) [0..<m] d ! k =
     (if base \<le> k \<and> k < base + m then f (k - base) else d ! k)"
proof (induction m)
  case 0
  then show ?case by auto
next
  case (Suc m)
  show ?case
  proof (cases "k = base + m")
    case True
    then show ?thesis using Suc.prems by (simp add: fold_update_length)
  next
    case False
    then have "(k < base + Suc m) = (k < base + m)" by auto
    with False show ?thesis using Suc by (simp add: fold_update_length)
  qed
qed

lemma length_write_tick [simp]: "length (write_tick cfg i b d) = length d"
  by (simp add: write_tick_def fold_update_length)

lemma write_tick_nth:
  "k < length d \<Longrightarrow>
   write_tick cfg i b d ! k =
     (if i * CHN_AMOUNT cfg \<le> k \<and> k < i * CHN_AMOUNT cfg + CHN_AMOUNT cfg
      then Some (b ! (k - i * CHN_AMOUNT cfg)) else d ! k)"
  by (simp add: write_tick_def fold_update_nth blocks_def)

lemma write_tick_slot:
  assumes "c < CHN_AMOUNT cfg" "p * CHN_AMOUNT cfg + c < length d"
  shows "write_tick cfg i b d ! (p * CHN_AMOUNT cfg + c) =
           (if p = i then Some (b ! c) else d ! (p * CHN_AMOUNT cfg + c))"
proof -
  let ?C = "CHN_AMOUNT cfg"
  have "(i * ?C \<le> p * ?C + c \<and> p * ?C + c < i * ?C + ?C) = (p = i)"
  proof
    assume a: "i * ?C \<le> p * ?C + c \<and> p * ?C + c < i * ?C + ?C"
    have "(p * ?C + c) div ?C = p" using assms(1) by simp
    moreover have "(p * ?C + c) div ?C = i"
    proof -
      have "?C * i \<le> p * ?C + c" "p * ?C + c < ?C * Suc i"
        using a by (simp_all add: mult.commute)
      then show ?thesis by (rule div_nat_eqI)
    qed
    ultimately show "p = i" by simp
  next
    assume "p = i" then show "i * ?C \<le> p * ?C + c \<and> p * ?C + c < i * ?C + ?C" using assms(1) by simp
  qed
  then show ?thesis using assms by (simp add: write_tick_nth)
qed

lemma tick_eq:
  assumes "0 \<le> ioctl_ret e n"
  shows "tick cfg e n st =
     (let i = (if loop_i st \<ge> samples cfg then 0 else loop_i st);
          d = write_tick cfg i (readings cfg e n) (data st);
          s' = next_counter cfg (readings cfg e n) (s_counter st)
      in if s' \<ge> (samples cfg * 2) div 3 then
           (if fopen_ok e (length (files st)) then
              Inr (st\<lparr>loop_i := i + 1, s_counter := 0, data := d,
                      data_fixed := fix_buffer cfg d (data_fixed st) i,
                      files := files st @ [rows cfg (fix_buffer cfg d (data_fixed st) i)]\<rparr>)
            else Inl NullFile)
         else Inr (st\<lparr>loop_i := i + 1, s_counter := s', data := d\<rparr>))"
  using assms
  by (simp add: tick_def spi_transfer_ok chan_loop_eq length_readings Let_def next_counter_def write_file_def)

lemma tick_fail:
  assumes "ioctl_ret e n < 0" "0 < CHN_AMOUNT cfg"
  shows "tick cfg e n st = Inl NullBuf"
proof -
  have "[0..<CHN_AMOUNT cfg * blocks] \<noteq> []" using assms(2) by (simp add: blocks_def)
  then show ?thesis using assms(1)
    by (simp add: tick_def spi_transfer_fail chan_loop_None)
qed

lemma tick_Inr_ioctl:
  "0 < CHN_AMOUNT cfg \<Longrightarrow> tick cfg e n st = Inr st' \<Longrightarrow> 0 \<le> ioctl_ret e n"
  using tick_fail [of e n cfg st] by (cases "ioctl_ret e n < 0") simp_all

lemma tick_Inr_fields:
  assumes "0 \<le> ioctl_ret e n" "tick cfg e n st = Inr st'"
  shows "loop_i st' = slot cfg st + 1"
    and "data st' = write_tick cfg (slot cfg st) (readings cfg e n) (data st)"
    and "length (data_fixed st') = length (data_fixed st)"
  using assms(2) unfolding tick_eq [OF assms(1)]
  by (auto simp: Let_def slot_def fix_buffer_def fix_loop_length split: if_splits)

lemma tick_Inr_counter:
  assumes "0 \<le> ioctl_ret e n" "tick cfg e n st = Inr st'"
  shows "s_counter st' =
           (if (samples cfg * 2) div 3 \<le> next_counter cfg (readings cfg e n) (s_counter st)
            then 0 else next_counter cfg (readings cfg e n) (s_counter st))"
    and "length (files st') = length (files st) +
           (if (samples cfg * 2) div 3 \<le> next_counter cfg (readings cfg e n) (s_counter st)
            then 1 else 0)"
  using assms(2) unfolding tick_eq [OF assms(1)]
  by (auto simp: Let_def split: if_splits)

lemma tick_capture:
  assumes "0 \<le> ioctl_ret e n" "tick cfg e n st = Inr st'"
    "(samples cfg * 2) div 3 \<le> next_counter cfg (readings cfg e n) (s_counter st)"
  shows "data_fixed st' = fix_buffer cfg (data st') (data_fixed st) (slot cfg st)"
    and "files st' = files st @ [rows cfg (data_fixed st')]"
  using assms(2,3) unfolding tick_eq [OF assms(1)]
  by (auto simp: Let_def slot_def split: if_splits)

lemma next_counter_counting: "s \<noteq> 0 \<Longrightarrow> next_counter cfg b s = Suc s"
  by (simp add: next_counter_def scan_def)

lemma next_counter_cross: "\<exists>x\<in>set b. threshold cfg \<le> x \<Longrightarrow> next_counter cfg b 0 = 2"
  by (simp add: next_counter_def scan_def)

lemma next_counter_quiet: "\<forall>x\<in>set b. x < threshold cfg \<Longrightarrow> next_counter cfg b 0 = 0"
  by (auto simp: next_counter_def scan_def)

lemma next_counter_le: "next_counter cfg b s \<le> (if s = 0 then 2 else Suc s)"
  by (simp add: next_counter_def scan_def)

lemma tick_no_capture:
  assumes "0 \<le> ioctl_ret e n"
    "next_counter cfg (readings cfg e n) (s_counter st) < (samples cfg * 2) div 3"
  shows "\<exists>st'. tick cfg e n st = Inr st' \<and>
           s_counter st' = next_counter cfg (readings cfg e n) (s_counter st) \<and>
           files st' = files st"
  using assms(2) unfolding tick_eq [OF assms(1)] by (simp add: Let_def)

lemma tick_capture_ok:
  assumes "0 \<le> ioctl_ret e n"
    "(samples cfg * 2) div 3 \<le> next_counter cfg (readings cfg e n) (s_counter st)"
    "fopen_ok e (length (files st))"
  shows "\<exists>st'. tick cfg e n st = Inr st' \<and> s_counter st' = 0 \<and>
           length (files st') = Suc (length (files st))"
  using assms(2,3) unfolding tick_eq [OF assms(1)] by (simp add: Let_def)

lemma tick_capture_fail:
  assumes "0 \<le> ioctl_ret e n"
    "(samples cfg * 2) div 3 \<le> next_counter cfg (readings cfg e n) (s_counter st)"
    "\<not> fopen_ok e (length (files st))"
  shows "tick cfg e n st = Inl NullFile"
  using assms(2,3) unfolding tick_eq [OF assms(1)] by (simp add: Let_def)

lemma continuous_Suc_Inr:
  "continuous cfg e (Suc n) = Inr st' \<Longrightarrow>
   \<exists>st. continuous cfg e n = Inr st \<and> tick cfg e n st = Inr st'"
  by (cases "continuous cfg e n") simp_all

lemma continuous_Inl_mono:
  "continuous cfg e n = Inl f \<Longrightarrow> n \<le> m \<Longrightarrow> \<exists>f'. continuous cfg e m = Inl f'"
proof (induction m)
  case 0
  then show ?case by simp
next
  case (Suc m)
  show ?case
  proof (cases "n = Suc m")
    case True
    then show ?thesis using Suc.prems by auto
  next
    case False
    then have "n \<le> m" using Suc.prems by simp
    then obtain f' where "continuous cfg e m = Inl f'" using Suc by blast
    then show ?thesis by simp
  qed
qed

lemma continuous_Inr_ioctl:
  "0 < CHN_AMOUNT cfg \<Longrightarrow> continuous cfg e n = Inr st \<Longrightarrow> k < n \<Longrightarrow> 0 \<le> ioctl_ret e k"
proof (induction n arbitrary: st)
  case 0
  then show ?case by simp
next
  case (Suc n)
  from continuous_Suc_Inr [OF Suc.prems(2)] obtain st0 where
    st0: "continuous cfg e n = Inr st0" "tick cfg e n st0 = Inr st" by blast
  show ?case
  proof (cases "k = n")
    case True
    then show ?thesis using tick_Inr_ioctl [OF Suc.prems(1) st0(2)] by simp
  next
    case False
    then have "k < n" using Suc.prems(3) by simp
    then show ?thesis using Suc.IH [OF Suc.prems(1) st0(1)] by simp
  qed
qed

lemma completes_atD:
  assumes "completes_at cfg e t"
  obtains st0 st where "continuous cfg e t = Inr st0" "tick cfg e t st0 = Inr st"
    "length (files st) = Suc (length (files st0))" "continuous cfg e (Suc t) = Inr st"
  using assms by (auto simp: completes_at_def split: sum.splits)

section \<open>The trigger\<close>

text \<open>
  Claim C8.  A tick whose transfer succeeds and that starts with \<open>s_counter = 0\<close> ends with
  \<open>s_counter > 0\<close> if and only if one of its readings is at least \<open>threshold\<close>: a reading
  equal to \<open>threshold\<close> triggers, readings of at most \<open>threshold - 1\<close> do not.  The window
  has more than four ticks (\<open>2 < (samples * 2) / 3\<close>), so that the capture is not already
  complete in the triggering tick.
\<close>

theorem idle_transition:
  assumes io: "0 \<le> ioctl_ret e n" and idle: "s_counter st = 0"
    and L: "2 < (samples cfg * 2) div 3"
  shows "\<exists>st'. tick cfg e n st = Inr st' \<and>
           (0 < s_counter st' \<longleftrightarrow> (\<exists>x\<in>set (readings cfg e n). threshold cfg \<le> x)) \<and>
           (threshold cfg \<in> set (readings cfg e n) \<longrightarrow> 0 < s_counter st') \<and>
           ((\<forall>x\<in>set (readings cfg e n). x \<le> threshold cfg - 1) \<longrightarrow> s_counter st' = 0)"
proof -
  let ?b = "readings cfg e n"
  have nc: "next_counter cfg ?b (s_counter st) = (if \<exists>x\<in>set ?b. threshold cfg \<le> x then 2 else 0)"
    using idle by (simp add: next_counter_def scan_def)
  then have "next_counter cfg ?b (s_counter st) < (samples cfg * 2) div 3" using L by simp
  from tick_no_capture [OF io this] obtain st' where
    st': "tick cfg e n st = Inr st'" "s_counter st' = next_counter cfg ?b (s_counter st)" by auto
  have a: "0 < s_counter st' \<longleftrightarrow> (\<exists>x\<in>set ?b. threshold cfg \<le> x)"
    using st'(2) nc by simp
  have b: "threshold cfg \<in> set ?b \<longrightarrow> 0 < s_counter st'" using a by auto
  have c: "(\<forall>x\<in>set ?b. x \<le> threshold cfg - 1) \<longrightarrow> s_counter st' = 0" using a by fastforce
  show ?thesis by (rule exI [of _ st']) (rule conjI [OF st'(1) conjI [OF a conjI [OF b c]]])
qed

theorem idle_transition_witness:
  "readings demo_config (boundary_env 194) 0 = [450, 0] \<and>
   (\<exists>st'. tick demo_config (boundary_env 194) 0 (init demo_config) = Inr st' \<and> 0 < s_counter st') \<and>
   readings demo_config (boundary_env 193) 0 = [449, 0] \<and>
   (\<exists>st'. tick demo_config (boundary_env 193) 0 (init demo_config) = Inr st' \<and> s_counter st' = 0)"
proof -
  have io: "0 \<le> ioctl_ret (boundary_env v) 0" for v by (simp add: boundary_env_def)
  have idle: "s_counter (init demo_config) = 0" by (simp add: init_def)
  have L: "2 < (samples demo_config * 2) div 3" by (simp add: demo_config_def)
  have T: "threshold demo_config = 450" by (simp add: demo_config_def)
  have r1: "readings demo_config (boundary_env 194) 0 = [450, 0]" by code_simp
  have r2: "readings demo_config (boundary_env 193) 0 = [449, 0]" by code_simp
  have a: "\<exists>st'. tick demo_config (boundary_env 194) 0 (init demo_config) = Inr st' \<and> 0 < s_counter st'"
    using idle_transition [OF io [of 194] idle L] by (auto simp: r1 T)
  have b: "\<exists>st'. tick demo_config (boundary_env 193) 0 (init demo_config) = Inr st' \<and> s_counter st' = 0"
    using idle_transition [OF io [of 193] idle L] by (auto simp: r2 T)
  show ?thesis using r1 a r2 b by (intro conjI)
qed

text \<open>
  Claim C6.  With \<open>s_counter > 0\<close> the channel loop leaves the counter as it is, whatever
  the readings; in the tick that triggers, the counter is 1 after the channel loop however
  many later channels cross as well; and a tick that starts with \<open>s_counter > 0\<close> ends
  with the counter incremented by one, or reset to 0 with exactly one file written when
  \<open>(samples * 2) / 3\<close> is reached, independently of the readings.
\<close>

theorem no_retrigger:
  "(0 < s \<longrightarrow> (\<exists>d'. chan_loop cfg i (Some b) js (d, s) = Inr (d', s))) \<and>
   ((\<exists>j\<in>set js. threshold cfg \<le> b ! j) \<longrightarrow>
      (\<exists>d'. chan_loop cfg i (Some b) (js @ js') (d, 0) = Inr (d', 1))) \<and>
   (0 < s_counter st \<and> 0 \<le> ioctl_ret e n \<and> tick cfg e n st = Inr st' \<longrightarrow>
      s_counter st' = (if (samples cfg * 2) div 3 \<le> s_counter st + 1 then 0 else s_counter st + 1) \<and>
      length (files st') =
        length (files st) + (if (samples cfg * 2) div 3 \<le> s_counter st + 1 then 1 else 0))"
proof (intro conjI impI)
  assume "0 < s"
  then show "\<exists>d'. chan_loop cfg i (Some b) js (d, s) = Inr (d', s)"
    by (simp add: chan_loop_Some)
next
  assume "\<exists>j\<in>set js. threshold cfg \<le> b ! j"
  then show "\<exists>d'. chan_loop cfg i (Some b) (js @ js') (d, 0) = Inr (d', 1)"
    by (auto simp: chan_loop_Some)
next
  assume a: "0 < s_counter st \<and> 0 \<le> ioctl_ret e n \<and> tick cfg e n st = Inr st'"
  then have nc: "next_counter cfg (readings cfg e n) (s_counter st) = s_counter st + 1"
    by (simp add: next_counter_counting)
  show "s_counter st' = (if (samples cfg * 2) div 3 \<le> s_counter st + 1 then 0 else s_counter st + 1)"
    using tick_Inr_counter(1) [of e n cfg st st'] a nc by simp
  show "length (files st') =
      length (files st) + (if (samples cfg * 2) div 3 \<le> s_counter st + 1 then 1 else 0)"
    using tick_Inr_counter(2) [of e n cfg st st'] a nc by simp
qed

theorem no_retrigger_witness:
  "(\<exists>d'. chan_loop demo_config 0 (Some [500, 600]) [0, 1] (replicate 12 None, 3) = Inr (d', 3)) \<and>
   (\<exists>j\<in>set [0]. threshold demo_config \<le> [500, 600] ! j) \<and>
   (\<exists>d'. chan_loop demo_config 0 (Some [500, 600]) ([0] @ [1]) (replicate 12 None, 0) = Inr (d', 1)) \<and>
   s_counter (projr (continuous demo_config (boundary_env 194) 1)) = 2 \<and>
   readings demo_config (boundary_env 194) 1 = [450, 0] \<and>
   tick demo_config (boundary_env 194) 1 (projr (continuous demo_config (boundary_env 194) 1))
     = continuous demo_config (boundary_env 194) 2 \<and>
   s_counter (projr (continuous demo_config (boundary_env 194) 2)) = 3 \<and>
   length (files (projr (continuous demo_config (boundary_env 194) 2))) = 0"
proof -
  let ?E = "boundary_env 194"
  let ?st = "projr (continuous demo_config ?E 1)" and ?st' = "projr (continuous demo_config ?E 2)"
  have s: "s_counter ?st = 2" by code_simp
  have r: "readings demo_config ?E 1 = [450, 0]" by code_simp
  have t: "tick demo_config ?E 1 ?st = continuous demo_config ?E 2" by code_simp
  have t': "continuous demo_config ?E 2 = Inr ?st'" by code_simp
  have io: "0 \<le> ioctl_ret ?E 1" by (simp add: boundary_env_def)
  have x: "\<exists>j\<in>set [0]. threshold demo_config \<le> [500, 600] ! j" by (simp add: demo_config_def)
  have L: "(samples demo_config * 2) div 3 = 4" by (simp add: demo_config_def)
  note n = no_retrigger [where s = 3 and cfg = demo_config and i = 0 and b = "[500, 600]"
      and js = "[0]" and js' = "[1]" and d = "replicate 12 None" and st = ?st and e = ?E
      and n = 1 and st' = ?st']
  have a: "\<exists>d'. chan_loop demo_config 0 (Some [500, 600]) ([0] @ [1]) (replicate 12 None, 0) = Inr (d', 1)"
    using n x by blast
  have b: "s_counter ?st' = 3 \<and> length (files ?st') = 0 + length (files ?st)"
    using n s io t t' L by simp
  have f: "length (files ?st) = 0" by code_simp
  have c: "\<exists>d'. chan_loop demo_config 0 (Some [500, 600]) [0, 1] (replicate 12 None, 3) = Inr (d', 3)"
    using no_retrigger [where s = 3 and cfg = demo_config and i = 0 and b = "[500, 600]"
      and js = "[0, 1]" and d = "replicate 12 None"] by simp
  show ?thesis using a b c s r t x f by simp
qed

section \<open>From the first crossing to the capture\<close>

lemma quiet_phase:
  assumes L: "0 < (samples cfg * 2) div 3"
    and ok: "\<forall>k<n. 0 \<le> ioctl_ret e k"
    and quiet: "\<forall>k<n. \<forall>x\<in>set (readings cfg e k). x < threshold cfg"
  shows "\<exists>st. continuous cfg e n = Inr st \<and> s_counter st = 0 \<and> files st = []"
  using ok quiet
proof (induction n)
  case 0
  then show ?case by (simp add: init_def)
next
  case (Suc n)
  have "\<forall>k<n. 0 \<le> ioctl_ret e k"
    using Suc.prems(1) less_SucI by blast
  moreover have "\<forall>k<n. \<forall>x\<in>set (readings cfg e k). x < threshold cfg"
    using Suc.prems(2) less_SucI by blast
  ultimately have "\<exists>st. continuous cfg e n = Inr st \<and> s_counter st = 0 \<and> files st = []"
    by (rule Suc.IH)
  then
  obtain st where st: "continuous cfg e n = Inr st" "s_counter st = 0" "files st = []"
    by auto
  have q: "\<forall>x\<in>set (readings cfg e n). x < threshold cfg"
    using Suc.prems(2) lessI by blast
  have io: "0 \<le> ioctl_ret e n" using Suc.prems(1) lessI by blast
  have nc: "next_counter cfg (readings cfg e n) (s_counter st) = 0"
    using q st(2) by (simp add: next_counter_quiet)
  then have "next_counter cfg (readings cfg e n) (s_counter st) < (samples cfg * 2) div 3"
    using L by simp
  from tick_no_capture [OF io this] st nc show ?case by auto
qed

lemma counting_phase:
  assumes L: "2 \<le> (samples cfg * 2) div 3"
    and ok: "\<forall>k \<le> t0 + (samples cfg * 2) div 3 - 2. 0 \<le> ioctl_ret e k"
    and quiet: "\<forall>k<t0. \<forall>x\<in>set (readings cfg e k). x < threshold cfg"
    and cross: "\<exists>x\<in>set (readings cfg e t0). threshold cfg \<le> x"
  shows "k \<le> (samples cfg * 2) div 3 - 2 \<Longrightarrow>
         \<exists>st. continuous cfg e (t0 + k) = Inr st \<and>
              s_counter st = (if k = 0 then 0 else k + 1) \<and> files st = []"
proof (induction k)
  case 0
  have "\<forall>k<t0. 0 \<le> ioctl_ret e k" using ok L by (auto intro: less_imp_le_nat trans_le_add1)
  from quiet_phase [OF _ this quiet] L show ?case by simp
next
  case (Suc k)
  then obtain st where st: "continuous cfg e (t0 + k) = Inr st"
    "s_counter st = (if k = 0 then 0 else k + 1)" "files st = []" by auto
  have io: "0 \<le> ioctl_ret e (t0 + k)" using ok Suc.prems by simp
  have nc: "next_counter cfg (readings cfg e (t0 + k)) (s_counter st) = k + 2"
    using st(2) cross by (cases "k = 0") (simp_all add: next_counter_cross next_counter_counting)
  have "next_counter cfg (readings cfg e (t0 + k)) (s_counter st) < (samples cfg * 2) div 3"
    using Suc.prems nc by simp
  from tick_no_capture [OF io this] st nc show ?case by auto
qed

lemma first_capture_core:
  assumes L: "2 \<le> (samples cfg * 2) div 3"
    and ok: "\<forall>k \<le> t0 + (samples cfg * 2) div 3 - 2. 0 \<le> ioctl_ret e k"
    and quiet: "\<forall>k<t0. \<forall>x\<in>set (readings cfg e k). x < threshold cfg"
    and cross: "\<exists>x\<in>set (readings cfg e t0). threshold cfg \<le> x"
    and fo: "fopen_ok e 0"
  shows "(\<forall>n\<le>t0. \<exists>st. continuous cfg e n = Inr st \<and> s_counter st = 0) \<and>
         (\<forall>k. 1 \<le> k \<and> k \<le> (samples cfg * 2) div 3 - 2 \<longrightarrow>
              (\<exists>st. continuous cfg e (t0 + k) = Inr st \<and> s_counter st = k + 1)) \<and>
         (\<forall>n < t0 + (samples cfg * 2) div 3 - 2. \<not> completes_at cfg e n) \<and>
         completes_at cfg e (t0 + (samples cfg * 2) div 3 - 2) \<and>
         (\<exists>st. continuous cfg e (t0 + (samples cfg * 2) div 3 - 1) = Inr st \<and>
               s_counter st = 0 \<and> length (files st) = 1)"
proof -
  let ?L = "(samples cfg * 2) div 3"
  note cp = counting_phase [OF L ok quiet cross]
  have ok': "0 \<le> ioctl_ret e k" if "k < t0" for k
  proof -
    have "k \<le> t0 + ?L - 2" using that L by simp
    then show ?thesis using ok by blast
  qed
  have idle0: "\<exists>st. continuous cfg e n = Inr st \<and> s_counter st = 0 \<and> files st = []"
    if "n \<le> t0" for n
  proof -
    have "\<forall>k<n. 0 \<le> ioctl_ret e k"
      using ok' that less_le_trans by blast
    moreover have "\<forall>k<n. \<forall>x\<in>set (readings cfg e k). x < threshold cfg"
      using quiet that less_le_trans by blast
    ultimately show ?thesis using quiet_phase [of cfg n e] L by simp
  qed
  have idle: "\<exists>st. continuous cfg e n = Inr st \<and> s_counter st = 0" if "n \<le> t0" for n
    using idle0 [OF that] by auto
  have before: "\<exists>st. continuous cfg e n = Inr st \<and> files st = []" if "n \<le> t0 + ?L - 2" for n
  proof (cases "n \<le> t0")
    case True
    from idle0 [OF this] show ?thesis by auto
  next
    case False
    then have "n = t0 + (n - t0)" "n - t0 \<le> ?L - 2" using that by simp_all
    with cp [of "n - t0"] show ?thesis by metis
  qed
  have counting: "\<exists>st. continuous cfg e (t0 + k) = Inr st \<and> s_counter st = k + 1"
    if "1 \<le> k \<and> k \<le> ?L - 2" for k
    using cp [of k] that by auto
  have nocap: "\<not> completes_at cfg e n" if "n < t0 + ?L - 2" for n
  proof -
    have le: "n \<le> t0 + ?L - 2" "Suc n \<le> t0 + ?L - 2" using that by simp_all
    obtain st where st: "continuous cfg e n = Inr st" "files st = []"
      using before [OF le(1)] by auto
    obtain st' where st': "continuous cfg e (Suc n) = Inr st'" "files st' = []"
      using before [OF le(2)] by auto
    from st st' show ?thesis by (simp add: completes_at_def)
  qed
  obtain st where st: "continuous cfg e (t0 + (?L - 2)) = Inr st"
    "s_counter st = (if ?L - 2 = 0 then 0 else ?L - 2 + 1)" "files st = []"
    using cp [of "?L - 2"] by auto
  have eq: "t0 + (?L - 2) = t0 + ?L - 2" "Suc (t0 + ?L - 2) = t0 + ?L - 1" using L by simp_all
  have io: "0 \<le> ioctl_ret e (t0 + (?L - 2))" using ok L by simp
  have nc: "next_counter cfg (readings cfg e (t0 + (?L - 2))) (s_counter st) = ?L"
  proof (cases "?L - 2 = 0")
    case True
    then have "?L = 2" using L by simp
    with True st(2) cross show ?thesis by (simp add: next_counter_cross)
  next
    case False
    with st(2) L show ?thesis by (simp add: next_counter_counting)
  qed
  have "?L \<le> next_counter cfg (readings cfg e (t0 + (?L - 2))) (s_counter st)"
    using nc by simp
  from tick_capture_ok [OF io this] fo st(3)
  obtain st' where st': "tick cfg e (t0 + (?L - 2)) st = Inr st'" "s_counter st' = 0"
    "length (files st') = Suc (length (files st))" by auto
  have cap: "completes_at cfg e (t0 + ?L - 2)"
    using st st' unfolding eq(1) [symmetric] by (simp add: completes_at_def)
  have "continuous cfg e (Suc (t0 + (?L - 2))) = Inr st'" using st(1) st'(1) by simp
  then have after: "\<exists>st. continuous cfg e (t0 + ?L - 1) = Inr st \<and> s_counter st = 0 \<and> length (files st) = 1"
    using st' st(3) eq by auto
  show ?thesis using idle counting nocap cap after by blast
qed

lemma first_capture:
  assumes L: "2 \<le> (samples cfg * 2) div 3"
    and ok: "\<forall>k \<le> t0 + (samples cfg * 2) div 3 - 2. 0 \<le> ioctl_ret e k"
    and quiet: "\<forall>k<t0. \<forall>x\<in>set (readings cfg e k). x < threshold cfg"
    and cross: "\<exists>x\<in>set (readings cfg e t0). threshold cfg \<le> x"
    and fo: "fopen_ok e 0"
  shows "(\<forall>n\<le>t0. \<exists>st. continuous cfg e n = Inr st \<and> s_counter st = 0) \<and>
         (\<exists>st d. continuous cfg e t0 = Inr st \<and>
            chan_loop cfg (if samples cfg \<le> loop_i st then 0 else loop_i st)
              (spi_transfer cfg (ioctl_ret e t0) (rx e t0))
              [0..<CHN_AMOUNT cfg * blocks] (data st, s_counter st) = Inr (d, 1)) \<and>
         (3 \<le> (samples cfg * 2) div 3 \<longrightarrow>
            (\<exists>st. continuous cfg e (t0 + 1) = Inr st \<and> s_counter st = 2)) \<and>
         (\<forall>k. 1 \<le> k \<and> k \<le> (samples cfg * 2) div 3 - 2 \<longrightarrow>
              (\<exists>st. continuous cfg e (t0 + k) = Inr st \<and> s_counter st = k + 1)) \<and>
         (\<forall>n < t0 + (samples cfg * 2) div 3 - 2. \<not> completes_at cfg e n) \<and>
         completes_at cfg e (t0 + (samples cfg * 2) div 3 - 2) \<and>
         (\<exists>st. continuous cfg e (t0 + (samples cfg * 2) div 3 - 1) = Inr st \<and>
               s_counter st = 0 \<and> length (files st) = 1)"
proof -
  let ?L = "(samples cfg * 2) div 3"
  note old = first_capture_core [OF L ok quiet cross fo]
  have idle: "\<forall>n\<le>t0. \<exists>st. continuous cfg e n = Inr st \<and> s_counter st = 0"
    using old by (rule conjunct1)
  have counting: "\<forall>k. 1 \<le> k \<and> k \<le> ?L - 2 \<longrightarrow>
      (\<exists>st. continuous cfg e (t0 + k) = Inr st \<and> s_counter st = k + 1)"
    using old [THEN conjunct2] by (rule conjunct1)
  note rest = old [THEN conjunct2, THEN conjunct2]
  obtain st where st: "continuous cfg e t0 = Inr st" "s_counter st = 0"
    using idle by auto
  have io: "0 \<le> ioctl_ret e t0"
  proof -
    have "t0 \<le> t0 + ?L - 2" using L by simp
    then show ?thesis using ok by blast
  qed
  have sc: "scan cfg (readings cfg e t0) 0 = 1" using cross by (simp add: scan_def)
  have "chan_loop cfg (if samples cfg \<le> loop_i st then 0 else loop_i st)
      (spi_transfer cfg (ioctl_ret e t0) (rx e t0))
      [0..<CHN_AMOUNT cfg * blocks] (data st, s_counter st)
      = Inr (write_tick cfg (if samples cfg \<le> loop_i st then 0 else loop_i st)
               (readings cfg e t0) (data st), 1)"
    unfolding spi_transfer_ok [OF io] st(2)
    using chan_loop_eq [OF length_readings [OF io], where d = "data st" and s = 0] sc by simp
  with st(1) have enter: "\<exists>st d. continuous cfg e t0 = Inr st \<and>
      chan_loop cfg (if samples cfg \<le> loop_i st then 0 else loop_i st)
        (spi_transfer cfg (ioctl_ret e t0) (rx e t0))
        [0..<CHN_AMOUNT cfg * blocks] (data st, s_counter st) = Inr (d, 1)"
    by blast
  have two: "3 \<le> ?L \<longrightarrow> (\<exists>st. continuous cfg e (t0 + 1) = Inr st \<and> s_counter st = 2)"
  proof
    assume "3 \<le> ?L"
    then have "(1::nat) \<le> 1 \<and> 1 \<le> ?L - 2" by simp
    with counting have "\<exists>st. continuous cfg e (t0 + 1) = Inr st \<and> s_counter st = 1 + 1"
      by blast
    then show "\<exists>st. continuous cfg e (t0 + 1) = Inr st \<and> s_counter st = 2"
      by (simp add: numeral_2_eq_2)
  qed
  show ?thesis
    by (rule conjI [OF idle conjI [OF enter conjI [OF two conjI [OF counting rest]]]])
qed

text \<open>
  Claim C2, as the code has it.  Let the transfers succeed, let no reading reach
  \<open>threshold\<close> before tick \<open>t0\<close>, let a reading of tick \<open>t0\<close> reach it, and let
  \<open>L = (samples * 2) / 3\<close> (integer division) be at least 2, that is \<open>samples \<ge> 3\<close>.
  Then \<open>s_counter\<close> is 0 up to the start of tick \<open>t0\<close>; the channel loop of tick \<open>t0\<close>
  sets it to 1, and \<open>if (s_counter) s_counter++\<close> increments it in the same tick.  When
  \<open>L \<ge> 3\<close>, that is \<open>samples \<ge> 5\<close>, it is therefore 2 at the end of tick \<open>t0\<close>, and
  \<open>k + 1\<close> after \<open>k\<close> ticks from \<open>t0\<close> on, as long as \<open>k \<le> L - 2\<close>.  No capture
  completes before tick \<open>t0 + L - 2\<close>; the capture completes at tick \<open>t0 + L - 2\<close> (for
  \<open>samples\<close> 3 or 4 this is tick \<open>t0\<close> itself), after which \<open>s_counter\<close> is 0 and one file
  is written.
\<close>

theorem trigger_latency:
  assumes "2 \<le> (samples cfg * 2) div 3"
    and "\<forall>k \<le> t0 + (samples cfg * 2) div 3 - 2. 0 \<le> ioctl_ret e k"
    and "\<forall>k<t0. \<forall>x\<in>set (readings cfg e k). x < threshold cfg"
    and "\<exists>x\<in>set (readings cfg e t0). threshold cfg \<le> x"
    and "fopen_ok e 0"
  shows "(\<forall>n\<le>t0. \<exists>st. continuous cfg e n = Inr st \<and> s_counter st = 0) \<and>
         (\<exists>st d. continuous cfg e t0 = Inr st \<and>
            chan_loop cfg (if samples cfg \<le> loop_i st then 0 else loop_i st)
              (spi_transfer cfg (ioctl_ret e t0) (rx e t0))
              [0..<CHN_AMOUNT cfg * blocks] (data st, s_counter st) = Inr (d, 1)) \<and>
         (3 \<le> (samples cfg * 2) div 3 \<longrightarrow>
            (\<exists>st. continuous cfg e (t0 + 1) = Inr st \<and> s_counter st = 2)) \<and>
         (\<forall>k. 1 \<le> k \<and> k \<le> (samples cfg * 2) div 3 - 2 \<longrightarrow>
              (\<exists>st. continuous cfg e (t0 + k) = Inr st \<and> s_counter st = k + 1)) \<and>
         (\<forall>n < t0 + (samples cfg * 2) div 3 - 2. \<not> completes_at cfg e n) \<and>
         completes_at cfg e (t0 + (samples cfg * 2) div 3 - 2) \<and>
         (\<exists>st. continuous cfg e (t0 + (samples cfg * 2) div 3 - 1) = Inr st \<and>
               s_counter st = 0 \<and> length (files st) = 1)"
  using assms by (rule first_capture)

lemma spec_readings:
  "readings spec_config spec_env n = (if n = 1000 then [500, 0, 0, 0] else [0, 0, 0, 0])"
  by (simp add: readings_def spi_transfer_def spec_config_def spec_env_def blocks_def
      upt_rec push_bit_eq_mult)

text \<open>
  In the scenario of the specification the channel loop of tick 1000 sets \<open>s_counter\<close> to
  1, it is 2 at the end of tick 1000, and the capture completes at tick 6998.
\<close>

theorem trigger_latency_witness:
  "(\<exists>st d. continuous spec_config spec_env 1000 = Inr st \<and>
      chan_loop spec_config (if samples spec_config \<le> loop_i st then 0 else loop_i st)
        (spi_transfer spec_config (ioctl_ret spec_env 1000) (rx spec_env 1000))
        [0..<CHN_AMOUNT spec_config * blocks] (data st, s_counter st) = Inr (d, 1)) \<and>
   (\<exists>st. continuous spec_config spec_env 1001 = Inr st \<and> s_counter st = 2) \<and>
   \<not> completes_at spec_config spec_env 6997 \<and>
   completes_at spec_config spec_env 6998 \<and>
   (\<exists>st. continuous spec_config spec_env 6999 = Inr st \<and> s_counter st = 0 \<and> length (files st) = 1)"
proof -
  have L: "(samples spec_config * 2) div 3 = 6000" by (simp add: spec_config_def)
  have h1: "2 \<le> (samples spec_config * 2) div 3" unfolding L by simp
  have h2: "\<forall>k \<le> 1000 + (samples spec_config * 2) div 3 - 2. 0 \<le> ioctl_ret spec_env k"
    by (simp add: spec_env_def)
  have h3: "\<forall>k<1000. \<forall>x\<in>set (readings spec_config spec_env k). x < threshold spec_config"
    by (simp add: spec_readings) (simp add: spec_config_def)
  have h4: "\<exists>x\<in>set (readings spec_config spec_env 1000). threshold spec_config \<le> x"
    by (simp add: spec_readings) (simp add: spec_config_def)
  have h5: "fopen_ok spec_env 0" by (simp add: spec_env_def)
  note t = trigger_latency [OF h1 h2 h3 h4 h5, unfolded L]
  note enter = t [THEN conjunct2, THEN conjunct1]
  note two = t [THEN conjunct2, THEN conjunct2, THEN conjunct1]
  note rest = t [THEN conjunct2, THEN conjunct2, THEN conjunct2, THEN conjunct2]
  have c: "\<exists>st. continuous spec_config spec_env 1001 = Inr st \<and> s_counter st = 2"
    using two by simp
  have b: "\<not> completes_at spec_config spec_env 6997"
    using rest [THEN conjunct1] by simp
  have a: "completes_at spec_config spec_env 6998"
    using rest [THEN conjunct2, THEN conjunct1] by simp
  have d: "\<exists>st. continuous spec_config spec_env 6999 = Inr st \<and> s_counter st = 0 \<and> length (files st) = 1"
    using rest [THEN conjunct2, THEN conjunct2] by simp
  show ?thesis by (rule conjI [OF enter conjI [OF c conjI [OF b conjI [OF a d]]]])
qed

text \<open>The capture is complete one tick before tick \<open>1000 + 6000 - 1 = 6999\<close>.\<close>

theorem trigger_latency_counterexample:
  "completes_at spec_config spec_env 6998 \<and> \<not> completes_at spec_config spec_env 6999"
proof -
  have L: "(samples spec_config * 2) div 3 = 6000" by (simp add: spec_config_def)
  have h1: "2 \<le> (samples spec_config * 2) div 3" unfolding L by simp
  have h2: "\<forall>k \<le> 1000 + (samples spec_config * 2) div 3 - 2. 0 \<le> ioctl_ret spec_env k"
    by (simp add: spec_env_def)
  have h3: "\<forall>k<1000. \<forall>x\<in>set (readings spec_config spec_env k). x < threshold spec_config"
    by (simp add: spec_readings) (simp add: spec_config_def)
  have h4: "\<exists>x\<in>set (readings spec_config spec_env 1000). threshold spec_config \<le> x"
    by (simp add: spec_readings) (simp add: spec_config_def)
  have h5: "fopen_ok spec_env 0" by (simp add: spec_env_def)
  note t = first_capture_core [OF h1 h2 h3 h4 h5, unfolded L]
  have a: "completes_at spec_config spec_env 6998" using t by simp
  obtain st where st: "continuous spec_config spec_env 6999 = Inr st" "s_counter st = 0"
    using t by auto
  have io: "0 \<le> ioctl_ret spec_env 6999" by (simp add: spec_env_def)
  have "next_counter spec_config (readings spec_config spec_env 6999) (s_counter st) = 0"
    unfolding st(2) by (rule next_counter_quiet) (simp add: spec_readings, simp add: spec_config_def)
  then have "next_counter spec_config (readings spec_config spec_env 6999) (s_counter st)
      < (samples spec_config * 2) div 3" unfolding L by simp
  from tick_no_capture [OF io this] obtain st' where
    "tick spec_config spec_env 6999 st = Inr st'" "files st' = files st" by auto
  then have b: "\<not> completes_at spec_config spec_env 6999"
    using st(1) by (simp add: completes_at_def)
  show ?thesis using a b by (rule conjI)
qed

lemma counter_bound:
  assumes C: "0 < CHN_AMOUNT cfg"
  shows "continuous cfg e n = Inr st \<Longrightarrow> s_counter st \<le> n + 1"
proof (induction n arbitrary: st)
  case 0
  then show ?case by (auto simp: init_def)
next
  case (Suc n)
  from continuous_Suc_Inr [OF Suc.prems] obtain st0 where
    st0: "continuous cfg e n = Inr st0" "tick cfg e n st0 = Inr st" by blast
  have io: "0 \<le> ioctl_ret e n" using tick_Inr_ioctl [OF C st0(2)] .
  have "s_counter st \<le> next_counter cfg (readings cfg e n) (s_counter st0)"
    using tick_Inr_counter(1) [OF io st0(2)] by simp
  also have "\<dots> \<le> (if s_counter st0 = 0 then 2 else Suc (s_counter st0))"
    by (rule next_counter_le)
  also have "\<dots> \<le> Suc n + 1" using Suc.IH [OF st0(1)] by simp
  finally show ?case .
qed

text \<open>
  The only condition for the extraction is \<open>s_counter >= (samples * 2) / 3\<close>: a capture
  never completes before tick \<open>(samples * 2) / 3 - 2\<close>, counted from 0 at the start of the
  acquisition, but nothing in the loop waits until \<open>samples\<close> ticks are in the ring.
\<close>

lemma completion_not_before:
  assumes C: "0 < CHN_AMOUNT cfg" and cmp: "completes_at cfg e t"
  shows "(samples cfg * 2) div 3 \<le> t + 2"
proof -
  from cmp obtain st0 st where
    st0: "continuous cfg e t = Inr st0" and tk: "tick cfg e t st0 = Inr st"
    and grow: "length (files st) = Suc (length (files st0))"
    by (rule completes_atD)
  have io: "0 \<le> ioctl_ret e t" using tick_Inr_ioctl [OF C tk] .
  have "(samples cfg * 2) div 3 \<le> next_counter cfg (readings cfg e t) (s_counter st0)"
    using tick_Inr_counter(2) [OF io tk] grow by (auto split: if_splits)
  also have "\<dots> \<le> (if s_counter st0 = 0 then 2 else Suc (s_counter st0))"
    by (rule next_counter_le)
  also have "\<dots> \<le> t + 2" using counter_bound [OF C st0] by simp
  finally show ?thesis .
qed

section \<open>The ring buffer and the extracted window\<close>

lemma slot_index_bound:
  "p < w \<Longrightarrow> c < ch \<Longrightarrow> p * ch + c < w * (ch::nat)"
proof -
  assume a: "p < w" "c < ch"
  then have "p * ch + c < p * ch + ch" by simp
  also have "\<dots> = Suc p * ch" by simp
  also have "\<dots> \<le> w * ch" using a(1) by (intro mult_le_mono1) simp
  finally show ?thesis .
qed

lemma mod_distinct:
  assumes "k < n" "n < k + (w::nat)"
  shows "k mod w \<noteq> n mod w"
proof
  assume "k mod w = n mod w"
  then have "w dvd n - k" using assms(1) by (metis mod_eq_dvd_iff_nat less_imp_le_nat)
  moreover have "0 < n - k" using assms(1) by simp
  ultimately have "w \<le> n - k" by (rule dvd_imp_le)
  then show False using assms by simp
qed

lemma ring_inv_init: "0 < samples cfg \<Longrightarrow> ring_inv cfg e 0 (init cfg)"
  by (simp add: ring_inv_def init_def slot_def mult.commute)

lemma ring_inv_tick:
  assumes W: "0 < samples cfg" and ok: "0 \<le> ioctl_ret e n"
    and inv: "ring_inv cfg e n st" and t: "tick cfg e n st = Inr st'"
  shows "ring_inv cfg e (Suc n) st'"
proof -
  let ?W = "samples cfg" and ?C = "CHN_AMOUNT cfg"
  note f = tick_Inr_fields [OF ok t]
  have sl: "slot cfg st = n mod ?W" and ld: "length (data st) = ?W * ?C"
    using inv by (simp_all add: ring_inv_def)
  have li: "loop_i st' = Suc (n mod ?W)" using f(1) sl by simp
  have "n mod ?W < ?W" using W by simp
  then have "(?W \<le> Suc (n mod ?W)) = (Suc (n mod ?W) = ?W)" by auto
  then have "slot cfg st' = Suc n mod ?W"
    unfolding slot_def li by (simp add: mod_Suc)
  moreover have "length (data st') = ?W * ?C" using f(2) ld by simp
  moreover have "length (data_fixed st') = ?W * ?C" using f(3) inv by (simp add: ring_inv_def)
  moreover have "data st' ! ((k mod ?W) * ?C + c) = Some (readings cfg e k ! c)"
    if k: "k < Suc n" "Suc n \<le> k + ?W" and c: "c < ?C" for k c
  proof -
    have rng: "(k mod ?W) * ?C + c < length (data st)"
      unfolding ld using W c by (intro slot_index_bound) simp_all
    show ?thesis
    proof (cases "k = n")
      case True
      then show ?thesis using write_tick_slot [OF c rng] by (simp add: f(2) sl)
    next
      case False
      then have kn: "k < n" "n < k + ?W" using k by simp_all
      then have "k mod ?W \<noteq> n mod ?W" by (rule mod_distinct)
      moreover have "data st ! ((k mod ?W) * ?C + c) = Some (readings cfg e k ! c)"
        using inv kn c by (simp add: ring_inv_def)
      ultimately show ?thesis using write_tick_slot [OF c rng] by (simp add: f(2) sl)
    qed
  qed
  ultimately show ?thesis by (simp add: ring_inv_def)
qed

lemma ring_inv_continuous:
  assumes "0 < samples cfg" "0 < CHN_AMOUNT cfg"
  shows "continuous cfg e n = Inr st \<Longrightarrow> ring_inv cfg e n st"
proof (induction n arbitrary: st)
  case 0
  then show ?case using ring_inv_init [OF assms(1)] by simp
next
  case (Suc n)
  from continuous_Suc_Inr [OF Suc.prems] obtain st0 where
    st0: "continuous cfg e n = Inr st0" "tick cfg e n st0 = Inr st" by blast
  show ?case
    using ring_inv_tick [OF assms(1) tick_Inr_ioctl [OF assms(2) st0(2)] Suc.IH [OF st0(1)] st0(2)] .
qed

lemma concat_chunks:
  assumes "length xs = m * ch" "\<forall>q<m. length (f q) = ch"
    "\<forall>q<m. \<forall>c<ch. xs ! (q * ch + c) = f q ! c"
  shows "xs = concat (map f [0..<m])"
  using assms
proof (induction m arbitrary: xs)
  case 0
  then show ?case by simp
next
  case (Suc m)
  have "take (m * ch) xs = concat (map f [0..<m])"
  proof (rule Suc.IH)
    show "length (take (m * ch) xs) = m * ch" using Suc.prems(1) by simp
    show "\<forall>q<m. length (f q) = ch" using Suc.prems(2) by simp
    show "\<forall>q<m. \<forall>c<ch. take (m * ch) xs ! (q * ch + c) = f q ! c"
    proof (intro allI impI)
      fix q c assume qc: "q < m" "c < ch"
      then have "q * ch + c < m * ch" by (rule slot_index_bound)
      then show "take (m * ch) xs ! (q * ch + c) = f q ! c"
        using Suc.prems(3) qc by simp
    qed
  qed
  moreover have "drop (m * ch) xs = f m"
  proof (rule nth_equalityI)
    show "length (drop (m * ch) xs) = length (f m)" using Suc.prems(1,2) by simp
  next
    fix c assume "c < length (drop (m * ch) xs)"
    then have c: "c < ch" using Suc.prems(1) by simp
    then have "m * ch + c \<le> length xs" using Suc.prems(1) by simp
    then show "drop (m * ch) xs ! c = f m ! c" using Suc.prems(3) c by simp
  qed
  ultimately have "xs = concat (map f [0..<m]) @ f m"
    by (metis append_take_drop_id)
  then show ?case by simp
qed

lemma rows_chunks:
  assumes "0 < CHN_AMOUNT cfg" "\<forall>q < samples cfg. length (f q) = CHN_AMOUNT cfg"
    "\<forall>q < samples cfg. \<forall>c < CHN_AMOUNT cfg. xs ! (q * CHN_AMOUNT cfg + c) = f q ! c"
  shows "rows cfg xs = map f [0..<samples cfg]"
proof -
  let ?C = "CHN_AMOUNT cfg"
  have up: "[0..<?C - 1] @ [?C - 1] = [0..<?C]"
    using assms(1) by (metis Suc_diff_1 upt_Suc_append zero_le)
  have "map (\<lambda>j. xs ! (r * ?C + j)) [0..<?C - 1] @ [xs ! (r * ?C + (?C - 1))] = f r"
    if r: "r < samples cfg" for r
  proof -
    have "map (\<lambda>j. xs ! (r * ?C + j)) [0..<?C - 1] @ [xs ! (r * ?C + (?C - 1))]
            = map (\<lambda>j. xs ! (r * ?C + j)) ([0..<?C - 1] @ [?C - 1])" by simp
    also have "\<dots> = map (\<lambda>j. xs ! (r * ?C + j)) [0..<?C]" by (simp only: up)
    also have "\<dots> = f r"
      using assms(2,3) r by (intro nth_equalityI) simp_all
    finally show ?thesis .
  qed
  then show ?thesis by (simp add: rows_def)
qed

lemma chunk_index_mod:
  assumes "c < ch"
  shows "(p * ch + c) mod (w * ch) = (p mod w) * ch + (c::nat)"
proof -
  have "(p * ch + c) mod (ch * w) = ch * ((p * ch + c) div ch mod w) + (p * ch + c) mod ch"
    by (rule mod_mult2_eq)
  then show ?thesis using assms by (simp add: mult.commute)
qed

lemma extraction_chunks:
  assumes W: "0 < samples cfg" and C: "0 < CHN_AMOUNT cfg"
    and full: "samples cfg \<le> t + 1"
    and inv: "ring_inv cfg e (Suc t) st"
    and q: "q < samples cfg" and c: "c < CHN_AMOUNT cfg"
    and br: "length buf_r = samples cfg * CHN_AMOUNT cfg"
  shows "fix_buffer cfg (data st) buf_r (t mod samples cfg) ! (q * CHN_AMOUNT cfg + c)
           = Some (readings cfg e (window_tick cfg t q) ! c)"
proof -
  let ?W = "samples cfg" and ?C = "CHN_AMOUNT cfg"
  have ld: "length (data st) = ?W * ?C" using inv by (simp add: ring_inv_def)
  have off: "t mod ?W < ?W" using W by simp
  have idx: "q * ?C + c < ?W * ?C" using q c by (rule slot_index_bound)
  have "fix_buffer cfg (data st) buf_r (t mod ?W) ! (q * ?C + c)
          = rotate (t mod ?W * ?C) (data st) ! (q * ?C + c)"
    by (simp add: fix_buffer_rotate [OF ld br off])
  also have "\<dots> = data st ! ((t mod ?W * ?C + (q * ?C + c)) mod (?W * ?C))"
    using idx ld by (simp add: nth_rotate)
  also have "(t mod ?W * ?C + (q * ?C + c)) = (t mod ?W + q) * ?C + c"
    by (simp add: add_mult_distrib)
  also have "((t mod ?W + q) * ?C + c) mod (?W * ?C) = ((t mod ?W + q) mod ?W) * ?C + c"
    using c by (rule chunk_index_mod)
  also have "(t mod ?W + q) mod ?W = (t + q) mod ?W" by (simp add: mod_add_left_eq)
  also have "(t + q) mod ?W = window_tick cfg t q mod ?W"
  proof (cases "q = 0")
    case True
    then show ?thesis by (simp add: window_tick_def)
  next
    case False
    have "?W \<le> t + q" using False full by simp
    then show ?thesis using False by (simp add: window_tick_def le_mod_geq)
  qed
  also have "data st ! (window_tick cfg t q mod ?W * ?C + c)
               = Some (readings cfg e (window_tick cfg t q) ! c)"
  proof -
    have "window_tick cfg t q < Suc t" "Suc t \<le> window_tick cfg t q + ?W"
      using q full by (auto simp: window_tick_def)
    then show ?thesis using inv c by (simp add: ring_inv_def)
  qed
  finally show ?thesis .
qed

lemma window_list:
  assumes "0 < samples cfg" "samples cfg \<le> t + 1"
  shows "map (window_tick cfg t) [0..<samples cfg] = t # [t + 1 - samples cfg..<t]"
proof -
  have "[0..<samples cfg] = 0 # [1..<samples cfg]" using assms(1) by (simp add: upt_conv_Cons)
  moreover have "map (window_tick cfg t) [1..<samples cfg] = [t + 1 - samples cfg..<t]"
    using assms by (intro nth_equalityI) (auto simp: window_tick_def)
  ultimately show ?thesis by (simp add: window_tick_def)
qed

text \<open>
  Slots that no tick has reached yet hold what \<open>malloc\<close> returned.  When a capture
  completes at a tick \<open>t\<close> with \<open>t + 1 < samples\<close>, the second row of the extracted window
  is the slot after that of tick \<open>t\<close>, which was never written.
\<close>

lemma ring_unwritten:
  assumes W: "0 < samples cfg" and C: "0 < CHN_AMOUNT cfg"
  shows "continuous cfg e n = Inr st \<Longrightarrow> n \<le> p \<Longrightarrow> p < samples cfg \<Longrightarrow> c < CHN_AMOUNT cfg \<Longrightarrow>
         data st ! (p * CHN_AMOUNT cfg + c) = None"
proof (induction n arbitrary: st)
  case 0
  have "p * CHN_AMOUNT cfg + c < samples cfg * CHN_AMOUNT cfg"
    using "0.prems"(3,4) by (rule slot_index_bound)
  then show ?case using "0.prems"(1) by (auto simp: init_def mult.commute)
next
  case (Suc n)
  from continuous_Suc_Inr [OF Suc.prems(1)] obtain st0 where
    st0: "continuous cfg e n = Inr st0" "tick cfg e n st0 = Inr st" by blast
  have io: "0 \<le> ioctl_ret e n" using tick_Inr_ioctl [OF C st0(2)] .
  have inv0: "ring_inv cfg e n st0" using ring_inv_continuous [OF W C st0(1)] .
  have "n < samples cfg" using Suc.prems(2,3) by simp
  then have sl: "slot cfg st0 = n" using inv0 by (simp add: ring_inv_def)
  have rng: "p * CHN_AMOUNT cfg + c < length (data st0)"
    using inv0 slot_index_bound [OF Suc.prems(3,4)] by (simp add: ring_inv_def)
  have "data st0 ! (p * CHN_AMOUNT cfg + c) = None"
    using Suc.IH [OF st0(1) _ Suc.prems(3,4)] Suc.prems(2) by simp
  moreover have "p \<noteq> n" using Suc.prems(2) by simp
  ultimately show ?case
    using write_tick_slot [OF Suc.prems(4) rng] tick_Inr_fields(2) [OF io st0(2)] sl by simp
qed

lemma early_capture_cells:
  assumes W: "0 < samples cfg" and C: "0 < CHN_AMOUNT cfg"
    and cmp: "completes_at cfg e t" and early: "t + 1 < samples cfg"
    and c: "c < CHN_AMOUNT cfg"
  shows "\<exists>st. continuous cfg e (Suc t) = Inr st \<and> data_fixed st ! (CHN_AMOUNT cfg + c) = None"
proof -
  let ?W = "samples cfg" and ?C = "CHN_AMOUNT cfg"
  from cmp obtain st0 st where
    st0: "continuous cfg e t = Inr st0" and tk: "tick cfg e t st0 = Inr st"
    and grow: "length (files st) = Suc (length (files st0))"
    and st: "continuous cfg e (Suc t) = Inr st"
    by (rule completes_atD)
  have io: "0 \<le> ioctl_ret e t" using tick_Inr_ioctl [OF C tk] .
  have inv0: "ring_inv cfg e t st0" using ring_inv_continuous [OF W C st0] .
  have inv: "ring_inv cfg e (Suc t) st" using ring_inv_continuous [OF W C st] .
  have cap: "(?W * 2) div 3 \<le> next_counter cfg (readings cfg e t) (s_counter st0)"
    using tick_Inr_counter(2) [OF io tk] grow by (auto split: if_splits)
  have tm: "t mod ?W = t" "(t + 1) mod ?W = t + 1" using early by simp_all
  have df: "data_fixed st = fix_buffer cfg (data st) (data_fixed st0) t"
    using tick_capture(1) [OF io tk cap] inv0 tm by (simp add: ring_inv_def)
  have ld: "length (data st) = ?W * ?C" using inv by (simp add: ring_inv_def)
  have br: "length (data_fixed st0) = ?W * ?C" using inv0 by (simp add: ring_inv_def)
  have off: "t < ?W" using early by simp
  have one: "1 < ?W" using early by simp
  have idx: "1 * ?C + c < ?W * ?C" using one c by (rule slot_index_bound)
  have "data_fixed st ! (1 * ?C + c) = rotate (t * ?C) (data st) ! (1 * ?C + c)"
    unfolding df by (simp add: fix_buffer_rotate [OF ld br off])
  also have "\<dots> = data st ! ((t * ?C + (1 * ?C + c)) mod (?W * ?C))"
    using idx ld by (simp add: nth_rotate)
  also have "t * ?C + (1 * ?C + c) = (t + 1) * ?C + c" by (simp add: add_mult_distrib)
  also have "((t + 1) * ?C + c) mod (?W * ?C) = ((t + 1) mod ?W) * ?C + c"
    using c by (rule chunk_index_mod)
  also have "\<dots> = (t + 1) * ?C + c" by (simp only: tm)
  also have "data st ! ((t + 1) * ?C + c) = None"
    using ring_unwritten [OF W C st _ early c] by simp
  finally show ?thesis using st by simp
qed

text \<open>
  With the constants of the source and a first crossing at tick 1000 the capture completes
  at tick 14331, when 14332 of the 20000 slots are written.
\<close>

lemma source_readings:
  "readings source_config spec_env n = (if n = 1000 then [500, 0, 0, 0] else [0, 0, 0, 0])"
  by (simp add: readings_def spi_transfer_def source_config_def spec_env_def blocks_def
      upt_rec push_bit_eq_mult)

lemma early_capture_source:
  "completes_at source_config spec_env 14331 \<and> 14331 + 1 < samples source_config \<and>
   (\<exists>st. continuous source_config spec_env 14332 = Inr st \<and> data_fixed st ! 4 = None)"
proof -
  have L: "(samples source_config * 2) div 3 = 13333" by (simp add: source_config_def)
  have h1: "2 \<le> (samples source_config * 2) div 3" unfolding L by simp
  have h2: "\<forall>k \<le> 1000 + (samples source_config * 2) div 3 - 2. 0 \<le> ioctl_ret spec_env k"
    by (simp add: spec_env_def)
  have h3: "\<forall>k<1000. \<forall>x\<in>set (readings source_config spec_env k). x < threshold source_config"
    by (simp add: source_readings) (simp add: source_config_def)
  have h4: "\<exists>x\<in>set (readings source_config spec_env 1000). threshold source_config \<le> x"
    by (simp add: source_readings) (simp add: source_config_def)
  have h5: "fopen_ok spec_env 0" by (simp add: spec_env_def)
  note t = first_capture_core [OF h1 h2 h3 h4 h5, unfolded L]
  have a: "completes_at source_config spec_env 14331" using t by simp
  have w: "0 < samples source_config" "0 < CHN_AMOUNT source_config"
    "14331 + 1 < samples source_config" "0 < CHN_AMOUNT source_config"
    by (simp_all add: source_config_def)
  have "\<exists>st. continuous source_config spec_env (Suc 14331) = Inr st \<and>
      data_fixed st ! (CHN_AMOUNT source_config + 0) = None"
    using w a by (intro early_capture_cells)
  then have b: "\<exists>st. continuous source_config spec_env 14332 = Inr st \<and> data_fixed st ! 4 = None"
    by (simp add: source_config_def)
  show ?thesis using a w(3) b by (intro conjI)
qed

text \<open>
  Claim C3.  The claim asks that no capture completes before \<open>samples\<close> ticks are written,
  so that no partial window is emitted.  The loop has no such guard: with a crossing in
  the very first tick the capture completes at tick 2 of a window of 6 ticks, and the file
  written has three rows of cells that were never written.
\<close>

theorem early_capture_unwritten:
  "completes_at demo_config (demo_env 0 True) 2 \<and>
   \<not> samples demo_config - 1 \<le> 2 \<and>
   last (files (projr (continuous demo_config (demo_env 0 True) 3)))
     = [ [Some 2, Some 102], [None, None], [None, None], [None, None],
        [Some 0, Some 500], [Some 1, Some 101]]"
  by code_simp

text \<open>
  Claim C1, as the code has it.  When a capture completes at tick \<open>t\<close> and at least
  \<open>samples\<close> ticks have been written (\<open>samples \<le> t + 1\<close>), \<open>fix_buffer\<close> is called with
  the slot of tick \<open>t\<close> and starts copying at that slot: the window begins with the
  \<open>CHN_AMOUNT\<close> readings of tick \<open>t\<close>, the most recent one, followed by the readings of
  the ticks \<open>t + 1 - samples\<close> to \<open>t - 1\<close> in chronological order, however often the ring
  has wrapped.  The file written has these ticks as its rows.
\<close>

theorem extraction_order:
  assumes W: "0 < samples cfg" and C: "0 < CHN_AMOUNT cfg"
    and full: "samples cfg \<le> t + 1"
    and cmp: "completes_at cfg e t"
  shows "\<exists>st. continuous cfg e (Suc t) = Inr st \<and>
           data_fixed st = map Some (concat (map (readings cfg e) (t # [t + 1 - samples cfg..<t]))) \<and>
           take (CHN_AMOUNT cfg) (data_fixed st) = map Some (readings cfg e t) \<and>
           last (files st) = map (\<lambda>k. map Some (readings cfg e k)) (t # [t + 1 - samples cfg..<t])"
proof -
  let ?W = "samples cfg" and ?C = "CHN_AMOUNT cfg"
  let ?f = "\<lambda>q. map Some (readings cfg e (window_tick cfg t q))"
  from cmp obtain st0 st where
    st0: "continuous cfg e t = Inr st0" and tk: "tick cfg e t st0 = Inr st"
    and grow: "length (files st) = Suc (length (files st0))"
    and st: "continuous cfg e (Suc t) = Inr st"
    by (rule completes_atD)
  have ok: "0 \<le> ioctl_ret e k" if "k < Suc t" for k
    using continuous_Inr_ioctl [OF C st that] .
  have inv0: "ring_inv cfg e t st0" using ring_inv_continuous [OF W C st0] .
  have inv: "ring_inv cfg e (Suc t) st" using ring_inv_continuous [OF W C st] .
  have cap: "(?W * 2) div 3 \<le> next_counter cfg (readings cfg e t) (s_counter st0)"
    using tick_Inr_counter(2) [OF ok tk] grow by (auto split: if_splits)
  have df: "data_fixed st = fix_buffer cfg (data st) (data_fixed st0) (t mod ?W)"
    using tick_capture(1) [OF ok tk cap] inv0 by (simp add: ring_inv_def)
  have fl: "files st = files st0 @ [rows cfg (data_fixed st)]"
    using tick_capture(2) [OF ok tk cap] by simp
  have br: "length (data_fixed st0) = ?W * ?C" using inv0 by (simp add: ring_inv_def)
  have wt: "window_tick cfg t q < Suc t" if "q < ?W" for q
    using that full by (auto simp: window_tick_def)
  have len: "\<forall>q < ?W. length (?f q) = ?C"
    using wt ok by (simp add: length_readings)
  have nth: "\<forall>q < ?W. \<forall>c < ?C. data_fixed st ! (q * ?C + c) = ?f q ! c"
  proof (intro allI impI)
    fix q c assume q: "q < ?W" and c: "c < ?C"
    have "c < length (readings cfg e (window_tick cfg t q))"
      using c wt [OF q] ok by (simp add: length_readings)
    then show "data_fixed st ! (q * ?C + c) = ?f q ! c"
      unfolding df using extraction_chunks [OF W C full inv q c br] by simp
  qed
  have ldf: "length (data_fixed st) = ?W * ?C" using inv by (simp add: ring_inv_def)
  have wl: "map (window_tick cfg t) [0..<?W] = t # [t + 1 - ?W..<t]"
    using W full by (rule window_list)
  have "data_fixed st = concat (map ?f [0..<?W])"
    using ldf len nth by (rule concat_chunks)
  also have "\<dots> = map Some (concat (map (readings cfg e) (map (window_tick cfg t) [0..<?W])))"
    by (simp add: map_concat comp_def)
  finally have a: "data_fixed st = map Some (concat (map (readings cfg e) (t # [t + 1 - ?W..<t])))"
    by (simp only: wl)
  have "rows cfg (data_fixed st) = map ?f [0..<?W]"
    using C len nth by (rule rows_chunks)
  also have "\<dots> = map (\<lambda>k. map Some (readings cfg e k)) (map (window_tick cfg t) [0..<?W])"
    by (simp add: comp_def)
  finally have b: "last (files st) = map (\<lambda>k. map Some (readings cfg e k)) (t # [t + 1 - ?W..<t])"
    using fl by (simp only: wl) simp
  have "length (readings cfg e t) = ?C" using ok [of t] by (simp add: length_readings)
  then have c: "take ?C (data_fixed st) = map Some (readings cfg e t)"
    unfolding a by simp
  show ?thesis using st a b c by blast
qed

theorem extraction_order_witness:
  "completes_at demo_config (demo_env 4 True) 6 \<and>
   (\<exists>st. continuous demo_config (demo_env 4 True) 7 = Inr st \<and>
      data_fixed st = map Some [6, 106, 1, 101, 2, 102, 3, 103, 4, 500, 5, 105] \<and>
      take 2 (data_fixed st) = map Some [6, 106] \<and>
      last (files st) = map (map Some) [ [6, 106], [1, 101], [2, 102], [3, 103], [4, 500], [5, 105]])"
proof -
  have h: "completes_at demo_config (demo_env 4 True) 6" by code_simp
  have r: "map (readings demo_config (demo_env 4 True)) [6, 1, 2, 3, 4, 5]
             = [ [6, 106], [1, 101], [2, 102], [3, 103], [4, 500], [5, 105]]" by code_simp
  have w: "0 < samples demo_config" "0 < CHN_AMOUNT demo_config" "samples demo_config \<le> 6 + 1"
    by (simp_all add: demo_config_def)
  have u: "6 # [6 + 1 - samples demo_config..<6] = [6, 1, 2, 3, 4, 5::nat]"
    by code_simp
  show ?thesis
    using extraction_order [OF w h] r h unfolding u by (simp add: demo_config_def)
qed

text \<open>
  The window extracted at tick 6 starts with the readings of tick 6, not with those of
  tick 1, the oldest tick in the ring.
\<close>

theorem extraction_order_counterexample:
  "completes_at demo_config (demo_env 4 True) 6 \<and>
   samples demo_config \<le> 6 + 1 \<and>
   data_fixed (projr (continuous demo_config (demo_env 4 True) 7))
     = map Some [6, 106, 1, 101, 2, 102, 3, 103, 4, 500, 5, 105] \<and>
   map Some (concat (map (readings demo_config (demo_env 4 True)) [1, 2, 3, 4, 5, 6]))
     = map Some [1, 101, 2, 102, 3, 103, 4, 500, 5, 105, 6, 106] \<and>
   data_fixed (projr (continuous demo_config (demo_env 4 True) 7))
     \<noteq> map Some (concat (map (readings demo_config (demo_env 4 True)) [1, 2, 3, 4, 5, 6]))"
  by code_simp

section \<open>Single measurement\<close>

lemma copy_loop_None: "js \<noteq> [] \<Longrightarrow> copy_loop cfg i None js d = Inl NullBuf"
  by (cases js) simp_all

lemma copy_loop_Some:
  "copy_loop cfg i (Some b) js d =
     Inr (fold (\<lambda>j d. d[i * CHN_AMOUNT cfg * blocks + j := Some (b ! j)]) js d)"
  by (induction js arbitrary: d) auto

lemma copy_loop_eq:
  "copy_loop cfg i (Some b) [0..<CHN_AMOUNT cfg * blocks] d = Inr (write_tick cfg i b d)"
  by (simp add: copy_loop_Some write_tick_def)

lemma single_loop_fail:
  "0 < CHN_AMOUNT cfg \<Longrightarrow> ioctl_ret e n < 0 \<Longrightarrow> n < samples cfg \<Longrightarrow> loop_i st \<le> n \<Longrightarrow>
   single_loop cfg e st = Inl NullBuf"
proof (induction cfg e st rule: single_loop.induct)
  case (1 cfg e st)
  let ?i = "loop_i st"
  have ne: "[0..<CHN_AMOUNT cfg * blocks] \<noteq> []" using "1.prems"(1) by (simp add: blocks_def)
  have lt: "?i < samples cfg" using "1.prems" by simp
  show ?case
  proof (cases "ioctl_ret e ?i < 0")
    case True
    then show ?thesis using lt ne
      by (subst single_loop.simps) (simp add: spi_transfer_fail copy_loop_None)
  next
    case False
    then have io: "0 \<le> ioctl_ret e ?i" by simp
    then have "?i \<noteq> n" using "1.prems"(2) by auto
    then have le: "loop_i (st\<lparr>loop_i := ?i + blocks,
        data := write_tick cfg ?i (readings cfg e ?i) (data st)\<rparr>) \<le> n"
      using "1.prems"(4) by (simp add: blocks_def)
    have cl: "copy_loop cfg ?i (spi_transfer cfg (ioctl_ret e ?i) (rx e ?i))
        [0..<CHN_AMOUNT cfg * blocks] (data st) = Inr (write_tick cfg ?i (readings cfg e ?i) (data st))"
      using io by (simp add: spi_transfer_ok copy_loop_eq)
    show ?thesis
      using "1.IH" [OF lt cl "1.prems"(1,2,3) le] lt cl
      by (subst single_loop.simps) simp
  qed
qed

lemma single_loop_ok:
  "0 < CHN_AMOUNT cfg \<Longrightarrow> \<forall>k < samples cfg. 0 \<le> ioctl_ret e k \<Longrightarrow> single_inv cfg e st \<Longrightarrow>
   \<exists>st'. single_loop cfg e st = Inr st' \<and> single_inv cfg e st' \<and> loop_i st' = samples cfg \<and>
         s_counter st' = s_counter st \<and> data_fixed st' = data_fixed st \<and> files st' = files st"
proof (induction cfg e st rule: single_loop.induct)
  case (1 cfg e st)
  let ?i = "loop_i st" and ?C = "CHN_AMOUNT cfg"
  show ?case
  proof (cases "?i < samples cfg")
    case False
    then have "?i = samples cfg" using "1.prems"(3) by (simp add: single_inv_def)
    then show ?thesis using "1.prems"(3) by (subst single_loop.simps) simp
  next
    case lt: True
    then have io: "0 \<le> ioctl_ret e ?i" using "1.prems"(2) by simp
    let ?d = "write_tick cfg ?i (readings cfg e ?i) (data st)"
    let ?st = "st\<lparr>loop_i := ?i + blocks, data := ?d\<rparr>"
    have cl: "copy_loop cfg ?i (spi_transfer cfg (ioctl_ret e ?i) (rx e ?i))
        [0..<CHN_AMOUNT cfg * blocks] (data st) = Inr ?d"
      using io by (simp add: spi_transfer_ok copy_loop_eq)
    have ld: "length (data st) = samples cfg * ?C" using "1.prems"(3) by (simp add: single_inv_def)
    have "data ?st ! (k * ?C + c) = Some (readings cfg e k ! c)"
      if k: "k < loop_i ?st" and c: "c < ?C" for k c
    proof -
      have "k < samples cfg" using k lt by (simp add: blocks_def)
      then have rng: "k * ?C + c < length (data st)"
        unfolding ld using c by (intro slot_index_bound)
      show ?thesis
      proof (cases "k = ?i")
        case True
        then show ?thesis using write_tick_slot [OF c rng] by simp
      next
        case False
        then have "k < ?i" using k by (simp add: blocks_def)
        then have "data st ! (k * ?C + c) = Some (readings cfg e k ! c)"
          using "1.prems"(3) c by (simp add: single_inv_def)
        then show ?thesis using write_tick_slot [OF c rng] False by simp
      qed
    qed
    then have inv: "single_inv cfg e ?st"
      using lt ld by (simp add: single_inv_def blocks_def)
    from "1.IH" [OF lt cl "1.prems"(1,2) inv] lt cl show ?thesis
      by (subst single_loop.simps) simp
  qed
qed

lemma single_inv_init: "single_inv cfg e (init cfg)"
  by (simp add: single_inv_def init_def mult.commute)

lemma main_single_ok:
  assumes C: "0 < CHN_AMOUNT cfg"
    and ok: "\<forall>k < samples cfg. 0 \<le> ioctl_ret e k"
    and fo: "fopen_ok e 0"
  shows "main_single cfg e =
           Inr \<lparr>loop_i = samples cfg, s_counter = 0,
                data = map Some (concat (map (readings cfg e) [0..<samples cfg])),
                data_fixed = replicate (CHN_AMOUNT cfg * samples cfg) None,
                files = [map (\<lambda>k. map Some (readings cfg e k)) [0..<samples cfg]]\<rparr>"
proof -
  let ?W = "samples cfg" and ?C = "CHN_AMOUNT cfg"
  let ?f = "\<lambda>k. map Some (readings cfg e k)"
  from single_loop_ok [OF C ok single_inv_init] obtain st where
    st: "single_loop cfg e (init cfg) = Inr st" "single_inv cfg e st" "loop_i st = ?W"
      "s_counter st = s_counter (init cfg)" "data_fixed st = data_fixed (init cfg)"
      "files st = files (init cfg)" by blast
  have len: "\<forall>q < ?W. length (?f q) = ?C" using ok by (simp add: length_readings)
  have nth: "\<forall>q < ?W. \<forall>c < ?C. data st ! (q * ?C + c) = ?f q ! c"
    using st(2,3) ok by (simp add: single_inv_def length_readings)
  have ld: "length (data st) = ?W * ?C" using st(2) by (simp add: single_inv_def)
  have "data st = concat (map ?f [0..<?W])" using ld len nth by (rule concat_chunks)
  then have d: "data st = map Some (concat (map (readings cfg e) [0..<?W]))"
    by (simp add: map_concat comp_def)
  have r: "rows cfg (data st) = map ?f [0..<?W]" using C len nth by (rule rows_chunks)
  have "st\<lparr>files := files st @ [rows cfg (data st)]\<rparr> =
      \<lparr>loop_i = ?W, s_counter = 0, data = map Some (concat (map (readings cfg e) [0..<?W])),
       data_fixed = replicate (?C * ?W) None, files = [map ?f [0..<?W]]\<rparr>"
    using st(3-6) d r by (cases st) (simp add: init_def)
  then show ?thesis using st(1) fo by (simp add: main_single_def write_file_def)
qed

lemma readings_threshold: "readings (cfg\<lparr>threshold := T\<rparr>) e = readings cfg e"
  by (rule ext) (simp add: readings_def spi_transfer_def)

text \<open>
  Claim C9.  With \<open>MODE = 0\<close>, when the \<open>samples\<close> transfers and the \<open>fopen\<close> succeed,
  \<open>main\<close> acquires exactly \<open>samples\<close> ticks into \<open>data\<close> in order, tick \<open>k\<close> at index
  \<open>k * CHN_AMOUNT\<close>, and writes one file with these ticks as its rows; \<open>s_counter\<close> stays
  0 and \<open>data_fixed\<close> is never written.  The result is the same for every threshold.
\<close>

theorem single_burst:
  assumes C: "0 < CHN_AMOUNT cfg"
    and ok: "\<forall>k < samples cfg. 0 \<le> ioctl_ret e k"
    and fo: "fopen_ok e 0"
  shows "main cfg 0 e n =
           Inr \<lparr>loop_i = samples cfg, s_counter = 0,
                data = map Some (concat (map (readings cfg e) [0..<samples cfg])),
                data_fixed = replicate (CHN_AMOUNT cfg * samples cfg) None,
                files = [map (\<lambda>k. map Some (readings cfg e k)) [0..<samples cfg]]\<rparr> \<and>
         (\<forall>T. main (cfg\<lparr>threshold := T\<rparr>) 0 e n = main cfg 0 e n)"
proof -
  have "main_single (cfg\<lparr>threshold := T\<rparr>) e = main_single cfg e" for T
    using main_single_ok [of "cfg\<lparr>threshold := T\<rparr>" e] main_single_ok [OF C ok fo] C ok fo
    by (simp add: readings_threshold)
  then show ?thesis using main_single_ok [OF C ok fo] by (simp add: main_def)
qed

theorem single_burst_witness:
  "(\<exists>x\<in>set (readings demo_config (demo_env 4 True) 4). threshold demo_config \<le> x) \<and>
   main demo_config 0 (demo_env 4 True) 0 =
     Inr \<lparr>loop_i = 6, s_counter = 0,
          data = map Some [0, 100, 1, 101, 2, 102, 3, 103, 4, 500, 5, 105],
          data_fixed = replicate 12 None,
          files = [map (map Some) [ [0, 100], [1, 101], [2, 102], [3, 103], [4, 500], [5, 105]]]\<rparr>"
proof -
  have C: "0 < CHN_AMOUNT demo_config" by (simp add: demo_config_def)
  have ok: "\<forall>k < samples demo_config. 0 \<le> ioctl_ret (demo_env 4 True) k"
    by (simp add: demo_env_def)
  have fo: "fopen_ok (demo_env 4 True) 0" by (simp add: demo_env_def)
  have x: "\<exists>x\<in>set (readings demo_config (demo_env 4 True) 4). threshold demo_config \<le> x"
    by code_simp
  have r: "map (readings demo_config (demo_env 4 True)) [0..<samples demo_config]
      = [ [0, 100], [1, 101], [2, 102], [3, 103], [4, 500], [5, 105]]" by code_simp
  have r': "map (\<lambda>k. map Some (readings demo_config (demo_env 4 True) k)) [0..<samples demo_config]
      = map (map Some) [ [0, 100], [1, 101], [2, 102], [3, 103], [4, 500], [5, 105]]"
    using r by (metis (no_types, lifting) map_map comp_def map_eq_conv)
  show ?thesis
    using single_burst [OF C ok fo, of 0] x unfolding r r' by (simp add: demo_config_def)
qed

section \<open>Failures of the transfer and of the file\<close>

text \<open>
  Claim C4.  When the \<open>ioctl\<close> of tick \<open>n\<close> returns a negative value, \<open>spi_transfer\<close>
  returns \<open>NULL\<close> and the first \<open>data_buf[j]\<close> of the channel loop faults: the iteration
  yields no state, nothing of the tick is written, \<open>i\<close> is not advanced, and the run is
  over from there on, in continuous mode and in the single measurement.
\<close>

theorem transfer_failure_aborts:
  assumes bad: "ioctl_ret e n < 0" and C: "0 < CHN_AMOUNT cfg"
  shows "tick cfg e n st = Inl NullBuf \<and>
         (\<forall>m > n. \<exists>f. continuous cfg e m = Inl f) \<and>
         (n < samples cfg \<longrightarrow> main_single cfg e = Inl NullBuf)"
proof -
  have a: "tick cfg e n st = Inl NullBuf" for st using bad C by (rule tick_fail)
  have "\<exists>f. continuous cfg e (Suc n) = Inl f"
    by (cases "continuous cfg e n") (simp_all add: a)
  then have b: "\<exists>f. continuous cfg e m = Inl f" if "n < m" for m
    using continuous_Inl_mono [of cfg e "Suc n" _ m] that by auto
  have c: "main_single cfg e = Inl NullBuf" if "n < samples cfg"
    using single_loop_fail [OF C bad that, of "init cfg"]
    by (simp add: main_single_def init_def)
  show ?thesis using a b c by blast
qed

theorem transfer_failure_aborts_witness:
  "ioctl_ret (failing_env 3) 3 < 0 \<and> 0 < CHN_AMOUNT demo_config \<and>
   loop_i (projr (continuous demo_config (failing_env 3) 3)) = 3 \<and>
   tick demo_config (failing_env 3) 3 (projr (continuous demo_config (failing_env 3) 3)) = Inl NullBuf \<and>
   (\<exists>f. continuous demo_config (failing_env 3) 4 = Inl f) \<and>
   (\<exists>f. continuous demo_config (failing_env 3) 9 = Inl f) \<and>
   main_single demo_config (failing_env 3) = Inl NullBuf"
proof -
  have h: "ioctl_ret (failing_env 3) 3 < 0" "0 < CHN_AMOUNT demo_config"
    by (simp_all add: failing_env_def demo_config_def)
  have i: "loop_i (projr (continuous demo_config (failing_env 3) 3)) = 3" by code_simp
  have s: "3 < samples demo_config" by (simp add: demo_config_def)
  show ?thesis using transfer_failure_aborts [OF h] h i s by simp
qed

text \<open>
  Claim C5.  \<open>write_file\<close> does not test the result of \<open>fopen\<close>.  With a crossing in tick 0
  the capture is due in tick 2; when \<open>fopen\<close> fails there, the run ends in tick 2 with the
  fault of the null stream instead of a reset counter, whereas with a successful \<open>fopen\<close>
  the counter is reset and the loop goes on.
\<close>

theorem fopen_failure_crashes:
  "s_counter (projr (continuous demo_config (demo_env 0 False) 2)) = 3 \<and>
   continuous demo_config (demo_env 0 False) 3 = Inl NullFile \<and>
   continuous demo_config (demo_env 0 False) 4 = Inl NullFile \<and>
   s_counter (projr (continuous demo_config (demo_env 0 True) 3)) = 0 \<and>
   loop_i (projr (continuous demo_config (demo_env 0 True) 4)) = 4"
  by code_simp

end
